theory Spec2Isabelle
  imports Complex_Main
begin

section \<open>Arrays, slices and Python indexing\<close>

text \<open>
  The solver works on NumPy arrays of floating-point numbers.  A one-dimensional array is a
  list, a two-dimensional array \<open>a\<close> is the list of its rows along axis 0, so that
  \<open>a[i, j]\<close> is \<open>a ! i ! j\<close>.  Array entries are real numbers: rounding, infinities and NaN
  of the floating-point format are not represented, and the theorems that divide assume the
  divisors to be nonzero.
\<close>

datatype py_error = ValueError | IndexError | ZeroDivisionError | AttributeError | PetscError

text \<open>\<open>sl a b xs\<close> is the Python slice \<open>xs[a:-b]\<close> for \<open>b > 0\<close>.\<close>

definition sl :: "nat \<Rightarrow> nat \<Rightarrow> 'a list \<Rightarrow> 'a list" where
  "sl a b xs = take (length xs - b - a) (drop a xs)"

text \<open>\<open>interior a\<close> is \<open>a[2:-2, 2:-2]\<close>.\<close>

definition interior :: "'a list list \<Rightarrow> 'a list list" where
  "interior a = map (sl 2 2) (sl 2 2 a)"

definition has_shape :: "nat \<Rightarrow> nat \<Rightarrow> 'a list list \<Rightarrow> bool" where
  "has_shape n m a \<longleftrightarrow> length a = n \<and> list_all (\<lambda>r. length r = m) a"

definition shape0 :: "'a list list \<Rightarrow> nat" where
  "shape0 a = length a"

definition shape1 :: "'a list list \<Rightarrow> nat" where
  "shape1 a = (case a of [] \<Rightarrow> 0 | r # _ \<Rightarrow> length r)"

definition tabulate2 :: "nat \<Rightarrow> nat \<Rightarrow> (nat \<Rightarrow> nat \<Rightarrow> 'a) \<Rightarrow> 'a list list" where
  "tabulate2 n m f = map (\<lambda>i. map (\<lambda>j. f i j) [0..<m]) [0..<n]"

text \<open>A Python index into an axis of length \<open>n\<close>: negative indices count from the end.\<close>

definition py_index :: "nat \<Rightarrow> int \<Rightarrow> nat option" where
  "py_index n k =
     (if 0 \<le> k \<and> k < int n then Some (nat k)
      else if - int n \<le> k \<and> k < 0 then Some (nat (int n + k))
      else None)"

section \<open>Settings, runtime and model variables\<close>

record settings =
  nx :: int
  ny :: int
  enable_cyclic_x :: bool
  congr_epsilon :: real
  congr_max_iterations :: int

text \<open>\<open>rs.num_proc\<close> and \<open>rst.proc_idx\<close>.\<close>

record runtime =
  num_proc :: "int \<times> int"
  proc_idx :: "int \<times> int"

record variables =
  hvr :: "real list list"
  hur :: "real list list"
  dxu :: "real list"
  dxt :: "real list"
  dyu :: "real list"
  dyt :: "real list"
  cosu :: "real list"
  cost :: "real list"
  boundary_mask :: "bool list list list"

text \<open>
  The variables of a process are declared on its padded local grid: two-dimensional fields
  have shape \<open>(n, m)\<close>, fields along x have length \<open>n\<close>, fields along y length \<open>m\<close>, and the
  boundary mask has shape \<open>(n, m, nisle)\<close>.
\<close>

definition vars_shape_ok :: "variables \<Rightarrow> bool" where
  "vars_shape_ok vs \<longleftrightarrow>
     (let n = shape0 (hvr vs); m = shape1 (hvr vs) in
        has_shape n m (hvr vs) \<and> has_shape n m (hur vs) \<and> has_shape n m (boundary_mask vs) \<and>
        length (dxu vs) = n \<and> length (dxt vs) = n \<and>
        length (dyu vs) = m \<and> length (dyt vs) = m \<and>
        length (cosu vs) = m \<and> length (cost vs) = m)"

section \<open>The distributed array descriptor\<close>

datatype boundary_kind = Periodic | Ghosted

record dmda =
  da_sizes :: "int \<times> int"
  da_stencil_width :: int
  da_proc_sizes :: "int \<times> int"
  da_boundary_type :: "boundary_kind \<times> boundary_kind"
  da_ownership_ranges :: "int list \<times> int list"

text \<open>
  The ownership ranges handed to the descriptor, lines 26 to 29 of the constructor:
  \<open>(nx // px,) * px\<close> and \<open>(ny // py,) * py\<close>.  Python's \<open>//\<close> raises on a zero divisor and
  a tuple times a non-positive number is empty.
\<close>

definition ownership_ranges :: "settings \<Rightarrow> runtime \<Rightarrow> py_error + (int list \<times> int list)" where
  "ownership_ranges st rt =
     (let px = fst (num_proc rt); py = snd (num_proc rt) in
        if px = 0 \<or> py = 0 then Inl ZeroDivisionError
        else Inr (replicate (nat px) (nx st div px), replicate (nat py) (ny st div py)))"

text \<open>
  The descriptor's \<open>getRanges\<close>: along an axis, process \<open>k\<close> owns the half-open block that
  starts where the blocks of the processes before it end.
\<close>

definition block_range :: "int list \<Rightarrow> nat \<Rightarrow> int \<times> int" where
  "block_range lx k = (sum_list (take k lx), sum_list (take (Suc k) lx))"

definition getRanges :: "dmda \<Rightarrow> int \<times> int \<Rightarrow> (int \<times> int) \<times> (int \<times> int)" where
  "getRanges d pidx =
     (block_range (fst (da_ownership_ranges d)) (nat (fst pidx)),
      block_range (snd (da_ownership_ranges d)) (nat (snd pidx)))"

section \<open>Assembly of the five-point operator\<close>

text \<open>
  Entry \<open>(i, j)\<close> of a sliced field is the entry of the padded field shifted by the slice's
  start: \<open>f[2:-2]\<close> reads \<open>f ! (i + 2)\<close> and \<open>f[3:-1]\<close> reads \<open>f ! (i + 3)\<close>; a field with
  \<open>npx.newaxis\<close> in the second place varies with \<open>i\<close>, one with \<open>npx.newaxis\<close> in the first
  place varies with \<open>j\<close>.  Division and multiplication associate to the left as in Python.
\<close>

definition nxl :: "variables \<Rightarrow> nat" where
  "nxl vs = shape0 (hvr vs) - 4"

definition nyl :: "variables \<Rightarrow> nat" where
  "nyl vs = shape1 (hvr vs) - 4"

definition east_term :: "variables \<Rightarrow> nat \<Rightarrow> nat \<Rightarrow> real" where
  "east_term vs i j =
     hvr vs ! (i + 3) ! (j + 2) / dxu vs ! (i + 2) / dxt vs ! (i + 3) / (cosu vs ! (j + 2)) ^ 2"

definition west_term :: "variables \<Rightarrow> nat \<Rightarrow> nat \<Rightarrow> real" where
  "west_term vs i j =
     hvr vs ! (i + 2) ! (j + 2) / dxu vs ! (i + 2) / dxt vs ! (i + 2) / (cosu vs ! (j + 2)) ^ 2"

definition north_term :: "variables \<Rightarrow> nat \<Rightarrow> nat \<Rightarrow> real" where
  "north_term vs i j =
     hur vs ! (i + 2) ! (j + 3) / dyu vs ! (j + 2) / dyt vs ! (j + 3) * cost vs ! (j + 3)
       / cosu vs ! (j + 2)"

definition south_term :: "variables \<Rightarrow> nat \<Rightarrow> nat \<Rightarrow> real" where
  "south_term vs i j =
     hur vs ! (i + 2) ! (j + 2) / dyu vs ! (j + 2) / dyt vs ! (j + 2) * cost vs ! (j + 2)
       / cosu vs ! (j + 2)"

text \<open>The main diagonal as line 116 to 135 write it, before any masking.\<close>

definition main_term :: "variables \<Rightarrow> nat \<Rightarrow> nat \<Rightarrow> real" where
  "main_term vs i j =
     (- (hvr vs ! (i + 3) ! (j + 2))) / dxu vs ! (i + 2) / dxt vs ! (i + 3) / (cosu vs ! (j + 2)) ^ 2
     - hvr vs ! (i + 2) ! (j + 2) / dxu vs ! (i + 2) / dxt vs ! (i + 2) / (cosu vs ! (j + 2)) ^ 2
     - hur vs ! (i + 2) ! (j + 2) / dyu vs ! (j + 2) / dyt vs ! (j + 2) * cost vs ! (j + 2)
         / cosu vs ! (j + 2)
     - hur vs ! (i + 2) ! (j + 3) / dyu vs ! (j + 2) / dyt vs ! (j + 3) * cost vs ! (j + 3)
         / cosu vs ! (j + 2)"

definition main_diag_raw :: "variables \<Rightarrow> real list list" where
  "main_diag_raw vs = tabulate2 (nxl vs) (nyl vs) (main_term vs)"

definition east_diag :: "variables \<Rightarrow> real list list" where
  "east_diag vs = tabulate2 (nxl vs) (nyl vs) (east_term vs)"

definition west_diag :: "variables \<Rightarrow> real list list" where
  "west_diag vs = tabulate2 (nxl vs) (nyl vs) (west_term vs)"

definition north_diag :: "variables \<Rightarrow> real list list" where
  "north_diag vs = tabulate2 (nxl vs) (nyl vs) (north_term vs)"

definition south_diag :: "variables \<Rightarrow> real list list" where
  "south_diag vs = tabulate2 (nxl vs) (nyl vs) (south_term vs)"

text \<open>\<open>npx.all(~a, axis=2)\<close>: true where no entry along the last axis is set.\<close>

definition all_not_axis2 :: "bool list list list \<Rightarrow> bool list list" where
  "all_not_axis2 a = map (map (list_all Not)) a"

text \<open>The mask of line 113: \<open>npx.all(~vs.boundary_mask[2:-2, 2:-2], axis=2)\<close>.\<close>

definition interior_mask :: "variables \<Rightarrow> bool list list" where
  "interior_mask vs = all_not_axis2 (interior (boundary_mask vs))"

text \<open>A boolean array times a real array: true counts as 1 and false as 0.\<close>

definition of_mask :: "bool \<Rightarrow> real" where
  "of_mask b = (if b then 1 else 0)"

definition mask_times :: "bool list list \<Rightarrow> real list list \<Rightarrow> real list list" where
  "mask_times mk a = map2 (map2 (\<lambda>b x. of_mask b * x)) mk a"

definition times_mask :: "real list list \<Rightarrow> bool list list \<Rightarrow> real list list" where
  "times_mask a mk = map2 (map2 (\<lambda>x b. x * of_mask b)) a mk"

text \<open>Lines 157 and 158: mask the main diagonal, then put 1 wherever it is zero.\<close>

definition main_diag :: "variables \<Rightarrow> real list list" where
  "main_diag vs =
     map (map (\<lambda>x. if x = 0 then 1 else x)) (times_mask (main_diag_raw vs) (interior_mask vs))"

text \<open>The tuple \<open>cf\<close> of lines 161 to 171.\<close>

definition cf :: "variables \<Rightarrow> real list list list" where
  "cf vs =
     [main_diag vs,
      mask_times (interior_mask vs) (east_diag vs),
      mask_times (interior_mask vs) (west_diag vs),
      mask_times (interior_mask vs) (north_diag vs),
      mask_times (interior_mask vs) (south_diag vs)]"

record mat_entry =
  mrow :: "int \<times> int"
  mcol :: "int \<times> int"
  mval :: real

definition ij_offsets :: "(int \<times> int) list" where
  "ij_offsets = [(0, 0), (1, 0), (- 1, 0), (0, 1), (0, - 1)]"

text \<open>\<open>a[i, j]\<close> for Python integers \<open>i\<close> and \<open>j\<close>; \<open>None\<close> stands for NumPy's IndexError.\<close>

definition py_get2 :: "'a list list \<Rightarrow> int \<Rightarrow> int \<Rightarrow> 'a option" where
  "py_get2 a i j =
     (case py_index (shape0 a) i of
        None \<Rightarrow> None
      | Some r \<Rightarrow>
          (case py_index (shape1 a) j of
             None \<Rightarrow> None
           | Some c \<Rightarrow> Some (a ! r ! c)))"

text \<open>
  The body of the double loop of lines 179 to 187 for one cell \<open>(i, j)\<close>: one call of
  \<open>setValueStencil\<close> for each diagonal and offset, in order.  \<open>bx\<close> and \<open>by\<close> are
  \<open>nx // px\<close> and \<open>ny // py\<close>.  The result is \<open>None\<close> when a read \<open>diag[iloc, jloc]\<close> is
  out of range.
\<close>

definition stencil_row ::
  "real list list list \<Rightarrow> int \<Rightarrow> int \<Rightarrow> int \<Rightarrow> int \<Rightarrow> mat_entry list option" where
  "stencil_row c bx by i j =
     (let iloc = i mod bx; jloc = j mod by in
        those (map (\<lambda>(diag, offset).
                      map_option
                        (\<lambda>v. \<lparr>mrow = (i, j), mcol = (i + fst offset, j + snd offset), mval = v\<rparr>)
                        (py_get2 diag iloc jloc))
                   (zip c ij_offsets)))"

definition stencil_entries ::
  "real list list list \<Rightarrow> int \<Rightarrow> int \<Rightarrow> (int \<times> int) \<times> (int \<times> int) \<Rightarrow> mat_entry list option" where
  "stencil_entries c bx by rg =
     (case rg of ((i0, i1), (j0, j1)) \<Rightarrow>
        map_option concat
          (those (map (\<lambda>j. map_option concat
                              (those (map (\<lambda>i. stencil_row c bx by i j) [i0..i1 - 1])))
                      [j0..j1 - 1])))"

record boundary_scale =
  east :: "real list"
  west :: "real list"
  north :: "real list"
  south :: "real list"

text \<open>
  \<open>_assemble_poisson_matrix\<close>.  The arithmetic on the fields needs them to have the declared
  shapes (NumPy rejects operands it cannot broadcast; every departure from the declared
  shapes counts as this error).  In the loop, \<open>i % (nx // px)\<close> raises
  on a zero divisor and \<open>diag[iloc, jloc]\<close> on an index out of range.  The last row and
  column taken for the boundary factors need a non-empty local grid.
\<close>

definition assemble_poisson_matrix ::
  "dmda \<Rightarrow> settings \<Rightarrow> runtime \<Rightarrow> variables \<Rightarrow> py_error + (mat_entry list \<times> boundary_scale)" where
  "assemble_poisson_matrix d st rt vs =
     (let bx = nx st div fst (num_proc rt); by = ny st div snd (num_proc rt);
          rg = getRanges d (proc_idx rt);
          c = cf vs
      in
        if \<not> vars_shape_ok vs then Inl ValueError
        else if fst (fst rg) < snd (fst rg) \<and> fst (snd rg) < snd (snd rg) \<and> (bx = 0 \<or> by = 0)
          then Inl ZeroDivisionError
        else
          (case stencil_entries c bx by rg of
             None \<Rightarrow> Inl IndexError
           | Some entries \<Rightarrow>
               if nxl vs = 0 \<or> nyl vs = 0 then Inl IndexError
               else Inr (entries,
                         \<lparr>east = last (c ! 1), west = hd (c ! 2),
                          north = map last (c ! 3), south = map hd (c ! 4)\<rparr>)))"

section \<open>The solver object\<close>

record petsc_ksp =
  ksp_operators :: "mat_entry list"
  ksp_type :: string
  ksp_atol :: real
  ksp_rtol :: real
  ksp_max_it :: int
  pc_type :: string

record PETScSolver =
  da :: dmda
  matrix :: "mat_entry list"
  boundary_fac :: boundary_scale
  ksp :: petsc_ksp

text \<open>The arguments of \<open>PETSc.DMDA().create\<close> in lines 19 to 30.\<close>

definition dmda_request ::
  "settings \<Rightarrow> runtime \<Rightarrow> boundary_kind \<times> boundary_kind \<Rightarrow> int list \<times> int list \<Rightarrow> dmda" where
  "dmda_request st rt boundary_type ranges =
     \<lparr>da_sizes = (nx st, ny st), da_stencil_width = 1, da_proc_sizes = num_proc rt,
      da_boundary_type = boundary_type, da_ownership_ranges = ranges\<rparr>"

text \<open>
  \<open>PETScSolver.__init__\<close>.  The descriptor is created by the PETSc library, which may refuse
  the request; \<open>da_accepts\<close> stands for its decision.  The constructor itself compares
  nothing: it divides, builds the request and passes it on.
\<close>

definition PETScSolver_init ::
  "(dmda \<Rightarrow> bool) \<Rightarrow> settings \<Rightarrow> runtime \<Rightarrow> variables \<Rightarrow> py_error + PETScSolver" where
  "PETScSolver_init da_accepts st rt vs =
     (let boundary_type =
            (if enable_cyclic_x st then (Periodic, Ghosted) else (Ghosted, Ghosted))
      in
        case ownership_ranges st rt of
          Inl e \<Rightarrow> Inl e
        | Inr ranges \<Rightarrow>
            (let d = dmda_request st rt boundary_type ranges
             in
               if \<not> da_accepts d then Inl PetscError
               else
                 (case assemble_poisson_matrix d st rt vs of
                    Inl e \<Rightarrow> Inl e
                  | Inr (mat, bf) \<Rightarrow>
                      Inr \<lparr>da = d, matrix = mat, boundary_fac = bf,
                           ksp = \<lparr>ksp_operators = mat, ksp_type = ''gmres'', ksp_atol = 0,
                                  ksp_rtol = congr_epsilon st,
                                  ksp_max_it = congr_max_iterations st,
                                  pc_type = ''hypre''\<rparr>\<rparr>)))"

section \<open>Solving\<close>

definition bindE :: "'e + 'a \<Rightarrow> ('a \<Rightarrow> 'e + 'b) \<Rightarrow> 'e + 'b" where
  "bindE m f = (case m of Inl e \<Rightarrow> Inl e | Inr x \<Rightarrow> f x)"

text \<open>
  \<open>npx.where(c, a, b)\<close> on three arrays of one shape.  Operands of different shapes are
  reported as NumPy reports operands it cannot broadcast.  Here and in the operations below
  every difference in shape is such an error, also the few NumPy would broadcast from an
  axis of length one; arrays declared on the grid never differ in shape.
\<close>

definition where2 :: "bool list list \<Rightarrow> 'a list list \<Rightarrow> 'a list list \<Rightarrow> 'a list list" where
  "where2 c a b =
     map (\<lambda>(cr, ar, br). map (\<lambda>(x, y, z). if x then y else z) (zip cr (zip ar br)))
         (zip c (zip a b))"

definition np_where :: "bool list list \<Rightarrow> 'a list list \<Rightarrow> 'a list list \<Rightarrow> py_error + 'a list list" where
  "np_where c a b =
     (if map length c = map length a \<and> map length a = map length b
      then Inr (where2 c a b)
      else Inl ValueError)"

text \<open>\<open>a[k, 2:-2]\<close> and \<open>a[2:-2, k]\<close> for a Python integer \<open>k\<close>.\<close>

definition get_row :: "'a list list \<Rightarrow> int \<Rightarrow> py_error + 'a list" where
  "get_row a k =
     (case py_index (shape0 a) k of
        None \<Rightarrow> Inl IndexError
      | Some r \<Rightarrow> Inr (sl 2 2 (a ! r)))"

definition get_col :: "'a list list \<Rightarrow> int \<Rightarrow> py_error + 'a list" where
  "get_col a k =
     (case py_index (shape1 a) k of
        None \<Rightarrow> Inl IndexError
      | Some c \<Rightarrow> Inr (map (\<lambda>row. row ! c) (sl 2 2 a)))"

text \<open>\<open>-v * fac\<close> on two vectors of one length.\<close>

definition neg_mul :: "real \<Rightarrow> real \<Rightarrow> real" where
  "neg_mul x c = (- x) * c"

definition neg_times :: "real list \<Rightarrow> real list \<Rightarrow> py_error + real list" where
  "neg_times v fac =
     (if length v = length fac then Inr (map2 neg_mul v fac) else Inl ValueError)"

text \<open>\<open>update_add(a, at[k, 2:-2], v)\<close> and \<open>update_add(a, at[2:-2, k], v)\<close>, returning the new array.\<close>

definition add_sl :: "real list \<Rightarrow> real list \<Rightarrow> real list" where
  "add_sl row v = take 2 row @ map2 (+) (sl 2 2 row) v @ drop (2 + length (sl 2 2 row)) row"

definition add_col_sl :: "real list list \<Rightarrow> nat \<Rightarrow> real list \<Rightarrow> real list list" where
  "add_col_sl a c v =
     take 2 a @ map2 (\<lambda>row x. row[c := row ! c + x]) (sl 2 2 a) v
       @ drop (2 + length (sl 2 2 a)) a"

definition update_add_row :: "real list list \<Rightarrow> int \<Rightarrow> real list \<Rightarrow> py_error + real list list" where
  "update_add_row a k v =
     (case py_index (shape0 a) k of
        None \<Rightarrow> Inl IndexError
      | Some r \<Rightarrow>
          if length v \<noteq> length (sl 2 2 (a ! r)) then Inl ValueError
          else Inr (a[r := add_sl (a ! r) v]))"

definition update_add_col :: "real list list \<Rightarrow> int \<Rightarrow> real list \<Rightarrow> py_error + real list list" where
  "update_add_col a k v =
     (case py_index (shape1 a) k of
        None \<Rightarrow> Inl IndexError
      | Some c \<Rightarrow>
          if length v \<noteq> length (sl 2 2 a) then Inl ValueError
          else Inr (add_col_sl a c v))"

text \<open>
  \<open>update(a, at[2:-2, 2:-2], v)\<close>: the interior of \<open>a\<close> replaced by \<open>v\<close>, which must have the
  interior's shape.
\<close>

definition set_interior :: "'a list list \<Rightarrow> 'a list list \<Rightarrow> 'a list list" where
  "set_interior a v =
     take 2 a @ map2 (\<lambda>row vr. take 2 row @ vr @ drop (2 + length vr) row) (sl 2 2 a) v
       @ drop (2 + length (sl 2 2 a)) a"

definition update_interior :: "'a list list \<Rightarrow> 'a list list \<Rightarrow> py_error + 'a list list" where
  "update_interior a v =
     (if map length v \<noteq> map length (interior a) then Inl ValueError
      else Inr (set_interior a v))"

text \<open>
  Lines 55 to 67 of \<open>_petsc_solver\<close>: the Dirichlet terms added to the right-hand side, edge
  by edge, each step reading the array the step before it returned.
\<close>

definition add_dirichlet ::
  "settings \<Rightarrow> runtime \<Rightarrow> boundary_scale \<Rightarrow> real list list \<Rightarrow> py_error + real list list" where
  "add_dirichlet st rt bf rhs =
     bindE
       (if \<not> enable_cyclic_x st then
          bindE
            (if fst (proc_idx rt) = fst (num_proc rt) - 1 then
               bindE (get_row rhs (- 2)) (\<lambda>nb.
                 bindE (neg_times nb (east bf)) (\<lambda>v. update_add_row rhs (- 3) v))
             else Inr rhs)
            (\<lambda>rhs.
               if fst (proc_idx rt) = 0 then
                 bindE (get_row rhs 1) (\<lambda>nb.
                   bindE (neg_times nb (west bf)) (\<lambda>v. update_add_row rhs 2 v))
               else Inr rhs)
        else Inr rhs)
       (\<lambda>rhs.
          bindE
            (if snd (proc_idx rt) = snd (num_proc rt) - 1 then
               bindE (get_col rhs (- 2)) (\<lambda>nb.
                 bindE (neg_times nb (north bf)) (\<lambda>v. update_add_col rhs (- 3) v))
             else Inr rhs)
            (\<lambda>rhs.
               if snd (proc_idx rt) = 0 then
                 bindE (get_col rhs 1) (\<lambda>nb.
                   bindE (neg_times nb (south bf)) (\<lambda>v. update_add_col rhs 2 v))
               else Inr rhs))"

text \<open>Python's \<open>str\<close> of an integer, as the f-string of line 78 formats it.\<close>

fun str_nat :: "nat \<Rightarrow> string" where
  "str_nat n =
     (if n < 10 then [''0123456789'' ! n]
      else str_nat (n div 10) @ [''0123456789'' ! (n mod 10)])"

definition str_int :: "int \<Rightarrow> string" where
  "str_int k = (if k < 0 then CHR ''-'' # str_nat (nat (- k)) else str_nat (nat k))"

datatype log_level = Warning

definition not_converged_message :: "int \<Rightarrow> int \<Rightarrow> string" where
  "not_converged_message iterations info =
     ''Streamfunction solver did not converge after '' @ str_int iterations
       @ '' iterations (error code: '' @ str_int info @ '')''"

text \<open>
  The Krylov iteration is the PETSc library's: a function of the configured solver, the
  right-hand side and the initial guess on the owned cells, giving the solution vector, the
  converged reason and the iteration number.  The solution is read from a vector of the
  descriptor; that it has the shape of the owned range is a hypothesis of the theorems about
  the array it is gathered into.
\<close>

type_synonym krylov =
  "petsc_ksp \<Rightarrow> real list list \<Rightarrow> real list list \<Rightarrow> real list list \<times> int \<times> int"

text \<open>The shape of the vectors of the descriptor: the extent of the owned range.\<close>

definition owned_shape :: "dmda \<Rightarrow> int \<times> int \<Rightarrow> nat \<times> nat" where
  "owned_shape d pidx =
     (let rg = getRanges d pidx
      in (nat (snd (fst rg) - fst (fst rg)), nat (snd (snd rg) - fst (snd rg))))"

text \<open>
  The object a caller binds to the parameter \<open>state\<close> of \<open>_petsc_solver\<close>: a model state,
  which has the attributes \<open>settings\<close> and \<open>variables\<close>, or the variables of a state alone.
  The variables hold the fields of the model, of which the record above lists those the
  solver reads, and have no attribute \<open>settings\<close>; reading it from them raises
  AttributeError.  The constructor and \<open>_assemble_poisson_matrix\<close> are called with the state
  and take its two attributes as two arguments.
\<close>

datatype state_arg = State settings variables | Variables variables

fun state_settings :: "state_arg \<Rightarrow> py_error + settings" where
  "state_settings (State st vs) = Inr st"
| "state_settings (Variables vs) = Inl AttributeError"

text \<open>
  \<open>_petsc_solver\<close>.  Line 53 reads the settings from the object passed as \<open>state\<close>.  The two
  vectors of the descriptor have the shape of the owned range; assigning an array of another
  shape to them is an error.  The log is the list of records the logger has received.
\<close>

definition petsc_solver ::
  "krylov \<Rightarrow> PETScSolver \<Rightarrow> state_arg \<Rightarrow> runtime \<Rightarrow> (log_level \<times> string) list \<Rightarrow>
   real list list \<Rightarrow> real list list \<Rightarrow> py_error + (real list list \<times> (log_level \<times> string) list)" where
  "petsc_solver engine slv state rt lg rhs x0 =
     bindE (state_settings state) (\<lambda>settings.
       bindE (add_dirichlet settings rt (boundary_fac slv) rhs) (\<lambda>rhs.
         (case owned_shape (da slv) (proc_idx rt) of
            (lnx, lny) \<Rightarrow>
              if \<not> has_shape lnx lny (interior rhs) then Inl ValueError
              else if \<not> has_shape lnx lny (interior x0) then Inl ValueError
              else
                (case engine (ksp slv) (interior rhs) (interior x0) of
                   (sol, info, iterations) \<Rightarrow>
                     Inr (sol,
                          if info < 0 then lg @ [(Warning, not_converged_message iterations info)]
                          else lg)))))"

text \<open>
  Lines 92 to 98 of \<open>solve\<close>: the locals \<open>x0\<close> and \<open>rhs\<close> as they stand before the call of
  \<open>_petsc_solver\<close>.  \<open>enforce_boundaries\<close> is the utility of the same name, a function from
  a field and the cyclic flag to a field.
\<close>

definition solve_setup ::
  "(real list list \<Rightarrow> bool \<Rightarrow> real list list) \<Rightarrow> settings \<Rightarrow> variables \<Rightarrow>
   real list list \<Rightarrow> real list list \<Rightarrow> real list list option \<Rightarrow>
   py_error + (real list list \<times> real list list)" where
  "solve_setup enforce_boundaries st vs rhs x0 boundary_val =
     (let boundary_val = (case boundary_val of None \<Rightarrow> x0 | Some b \<Rightarrow> b);
          x0 = enforce_boundaries x0 (enable_cyclic_x st);
          bmask = all_not_axis2 (boundary_mask vs)
      in bindE (np_where bmask rhs boundary_val) (\<lambda>rhs. Inr (x0, rhs)))"

text \<open>
  \<open>solve\<close>.  The call of line 100 passes \<open>vs\<close>, the variables of the state, as the \<open>state\<close>
  of \<open>_petsc_solver\<close>.  The operators \<open>update\<close> and \<open>update_add\<close> return the changed array
  and leave their argument as it was.
\<close>

definition solve ::
  "krylov \<Rightarrow> (real list list \<Rightarrow> bool \<Rightarrow> real list list) \<Rightarrow> PETScSolver \<Rightarrow> settings \<Rightarrow>
   runtime \<Rightarrow> variables \<Rightarrow> (log_level \<times> string) list \<Rightarrow>
   real list list \<Rightarrow> real list list \<Rightarrow> real list list option \<Rightarrow>
   py_error + (real list list \<times> (log_level \<times> string) list)" where
  "solve engine enforce_boundaries slv st rt vs lg rhs x0 boundary_val =
     bindE (solve_setup enforce_boundaries st vs rhs x0 boundary_val) (\<lambda>(x0, rhs).
       bindE (petsc_solver engine slv (Variables vs) rt lg rhs x0) (\<lambda>(linear_solution, lg).
         bindE (update_interior rhs linear_solution) (\<lambda>r. Inr (r, lg))))"

section \<open>Well-formed inputs and reference configurations\<close>

text \<open>The metric factors the assembly divides by.\<close>

definition metrics_nonzero :: "variables \<Rightarrow> bool" where
  "metrics_nonzero vs \<longleftrightarrow>
     list_all (\<lambda>x. x \<noteq> 0) (dxu vs) \<and> list_all (\<lambda>x. x \<noteq> 0) (dxt vs) \<and>
     list_all (\<lambda>x. x \<noteq> 0) (dyu vs) \<and> list_all (\<lambda>x. x \<noteq> 0) (dyt vs) \<and>
     list_all (\<lambda>x. x \<noteq> 0) (cosu vs)"

definition uniform1 :: "'a \<Rightarrow> 'a list \<Rightarrow> bool" where
  "uniform1 c v \<longleftrightarrow> list_all (\<lambda>x. x = c) v"

definition uniform2 :: "'a \<Rightarrow> 'a list list \<Rightarrow> bool" where
  "uniform2 c a \<longleftrightarrow> list_all (list_all (\<lambda>x. x = c)) a"

text \<open>No cell carries a boundary flag.\<close>

definition unmasked :: "variables \<Rightarrow> bool" where
  "unmasked vs \<longleftrightarrow> list_all (list_all (list_all Not)) (boundary_mask vs)"

text \<open>
  A padded \<open>n\<close> by \<open>m\<close> grid with constant fields and the same flags \<open>lv\<close> in every cell.
\<close>

definition box_vars :: "nat \<Rightarrow> nat \<Rightarrow> bool list \<Rightarrow> variables" where
  "box_vars n m lv =
     \<lparr>hvr = replicate n (replicate m 2), hur = replicate n (replicate m 3),
      dxu = replicate n 1, dxt = replicate n 2, dyu = replicate m 1, dyt = replicate m 4,
      cosu = replicate m (1 / 2), cost = replicate m 1,
      boundary_mask = replicate n (replicate m lv)\<rparr>"

text \<open>
  A cell is flagged when some entry of the boundary mask along its last axis is set, and
  fully flagged when there is such an entry and all of them are set.
\<close>

definition flagged :: "variables \<Rightarrow> nat \<Rightarrow> nat \<Rightarrow> bool" where
  "flagged vs i j \<longleftrightarrow> list_ex (\<lambda>b. b) (boundary_mask vs ! i ! j)"

definition fully_flagged :: "variables \<Rightarrow> nat \<Rightarrow> nat \<Rightarrow> bool" where
  "fully_flagged vs i j \<longleftrightarrow>
     boundary_mask vs ! i ! j \<noteq> [] \<and> list_all (\<lambda>b. b) (boundary_mask vs ! i ! j)"

text \<open>
  Modelled from the spec: the boundary-enforcement utility \<open>enforce_boundaries(field,
  cyclic_x)\<close>, which is not among the sources.  With the cyclic flag it wraps the field
  periodically in x, the two ghost rows on each side taking the values of the interior rows
  at the opposite side; without the flag it returns the field as it is.
\<close>

definition enforce_boundaries :: "real list list \<Rightarrow> bool \<Rightarrow> real list list" where
  "enforce_boundaries a cyclic =
     (if cyclic then
        take 2 (drop (length a - 4) a) @ sl 2 2 a @ take 2 (drop 2 a)
      else a)"

definition ramp :: "nat \<Rightarrow> nat \<Rightarrow> real list list" where
  "ramp n m = tabulate2 n m (\<lambda>i j. real (10 * i + j))"

definition const2 :: "nat \<Rightarrow> nat \<Rightarrow> real \<Rightarrow> real list list" where
  "const2 n m c = replicate n (replicate m c)"

definition cyclic_settings :: settings where
  "cyclic_settings =
     \<lparr>nx = 2, ny = 2, enable_cyclic_x = True, congr_epsilon = 1 / 10 ^ 8,
      congr_max_iterations = 1000\<rparr>"

definition wall_settings :: settings where
  "wall_settings =
     \<lparr>nx = 2, ny = 2, enable_cyclic_x = False, congr_epsilon = 1 / 10 ^ 8,
      congr_max_iterations = 1000\<rparr>"

definition single_process :: runtime where
  "single_process = \<lparr>num_proc = (1, 1), proc_idx = (0, 0)\<rparr>"

text \<open>
  The array after one step of the Dirichlet correction: row \<open>tgt\<close> (column \<open>tgt\<close>) of the
  interior range decreased by the neighbouring row \<open>src\<close> (column \<open>src\<close>) times the factor.
\<close>

definition inj_row :: "real list list \<Rightarrow> nat \<Rightarrow> nat \<Rightarrow> real list \<Rightarrow> real list list" where
  "inj_row a tgt src fac =
     a[tgt := add_sl (a ! tgt) (map2 neg_mul (sl 2 2 (a ! src)) fac)]"

definition inj_col :: "real list list \<Rightarrow> nat \<Rightarrow> nat \<Rightarrow> real list \<Rightarrow> real list list" where
  "inj_col a tgt src fac =
     add_col_sl a tgt (map2 neg_mul (map (\<lambda>row. row ! src) (sl 2 2 a)) fac)"

text \<open>
  The four steps of \<open>add_dirichlet\<close> on an array of \<open>n\<close> rows and \<open>m\<close> columns, without the
  checks of the indexing.
\<close>

definition dirichlet_steps ::
  "settings \<Rightarrow> runtime \<Rightarrow> boundary_scale \<Rightarrow> nat \<Rightarrow> nat \<Rightarrow> real list list \<Rightarrow> real list list" where
  "dirichlet_steps st rt bf n m rhs =
     (let r1 = (if \<not> enable_cyclic_x st \<and> fst (proc_idx rt) = fst (num_proc rt) - 1
                then inj_row rhs (n - 3) (n - 2) (east bf) else rhs);
          r2 = (if \<not> enable_cyclic_x st \<and> fst (proc_idx rt) = 0
                then inj_row r1 2 1 (west bf) else r1);
          r3 = (if snd (proc_idx rt) = snd (num_proc rt) - 1
                then inj_col r2 (m - 3) (m - 2) (north bf) else r2)
      in if snd (proc_idx rt) = 0 then inj_col r3 2 1 (south bf) else r3)"



text \<open>
  Names for the values passed along: the boundary values in force, the right-hand side after
  line 98, and the two arrays \<open>_petsc_solver\<close> assigns to the vectors in lines 69 and 70
  when it is given that right-hand side and the settings \<open>st\<close>.
\<close>

definition boundary_val_of :: "real list list \<Rightarrow> real list list option \<Rightarrow> real list list" where
  "boundary_val_of x0 boundary_val = (case boundary_val of None \<Rightarrow> x0 | Some b \<Rightarrow> b)"

definition masked_rhs :: "variables \<Rightarrow> real list list \<Rightarrow> real list list \<Rightarrow> real list list" where
  "masked_rhs vs rhs bv = where2 (all_not_axis2 (boundary_mask vs)) rhs bv"

definition krylov_rhs ::
  "settings \<Rightarrow> runtime \<Rightarrow> PETScSolver \<Rightarrow> variables \<Rightarrow> real list list \<Rightarrow> real list list
   \<Rightarrow> real list list" where
  "krylov_rhs st rt slv vs rhs bv =
     interior (dirichlet_steps st rt (boundary_fac slv) (shape0 rhs) (shape1 rhs)
                 (masked_rhs vs rhs bv))"

definition krylov_x0 ::
  "(real list list \<Rightarrow> bool \<Rightarrow> real list list) \<Rightarrow> settings \<Rightarrow> real list list \<Rightarrow> real list list" where
  "krylov_x0 enf st x0 = interior (enf x0 (enable_cyclic_x st))"

text \<open>
  The inputs of one call on a process that owns \<open>kx\<close> by \<open>ky\<close> cells: every array is
  declared on the padded local grid and the boundary factors have the lengths of its edges.
\<close>

definition solve_inputs_ok ::
  "(real list list \<Rightarrow> bool \<Rightarrow> real list list) \<Rightarrow> PETScSolver \<Rightarrow> settings \<Rightarrow> runtime \<Rightarrow>
   variables \<Rightarrow> real list list \<Rightarrow> real list list \<Rightarrow> real list list \<Rightarrow> nat \<Rightarrow> nat \<Rightarrow> bool" where
  "solve_inputs_ok enf slv st rt vs rhs x0 bv kx ky \<longleftrightarrow>
     0 < kx \<and> 0 < ky \<and> owned_shape (da slv) (proc_idx rt) = (kx, ky) \<and>
     has_shape (kx + 4) (ky + 4) (boundary_mask vs) \<and>
     has_shape (kx + 4) (ky + 4) rhs \<and> has_shape (kx + 4) (ky + 4) bv \<and>
     has_shape (kx + 4) (ky + 4) (enf x0 (enable_cyclic_x st)) \<and>
     length (east (boundary_fac slv)) = ky \<and> length (west (boundary_fac slv)) = ky \<and>
     length (north (boundary_fac slv)) = kx \<and> length (south (boundary_fac slv)) = kx"

text \<open>
  An iteration that stops before its first step: it returns the initial guess, the reason
  \<open>-3\<close> of an exhausted iteration budget and the iteration number 0.
\<close>

definition stalled_engine :: krylov where
  "stalled_engine k b x = (x, - 3, 0)"

definition accept_all :: "dmda \<Rightarrow> bool" where
  "accept_all d = True"

definition empty_solver :: PETScSolver where
  "empty_solver =
     \<lparr>da = \<lparr>da_sizes = (0, 0), da_stencil_width = 1, da_proc_sizes = (1, 1),
             da_boundary_type = (Ghosted, Ghosted), da_ownership_ranges = ([], [])\<rparr>,
      matrix = [], boundary_fac = \<lparr>east = [], west = [], north = [], south = []\<rparr>,
      ksp = \<lparr>ksp_operators = [], ksp_type = [], ksp_atol = 0, ksp_rtol = 0, ksp_max_it = 0,
             pc_type = []\<rparr>\<rparr>"

text \<open>The solver a successful construction returns.\<close>

definition constructed :: "py_error + PETScSolver \<Rightarrow> PETScSolver" where
  "constructed r = (case r of Inr s \<Rightarrow> s | Inl e \<Rightarrow> empty_solver)"

text \<open>
  One process on a two by two grid with walls in x, constant fields and every cell carrying
  the flags \<open>lv\<close>.
\<close>

definition box_solver :: "bool list \<Rightarrow> PETScSolver" where
  "box_solver lv =
     constructed (PETScSolver_init accept_all wall_settings single_process (box_vars 6 6 lv))"

text \<open>The row of the identity at cell \<open>(i, j)\<close>, in the order of the offsets.\<close>

definition identity_row :: "int \<Rightarrow> int \<Rightarrow> mat_entry list" where
  "identity_row i j =
     [\<lparr>mrow = (i, j), mcol = (i, j), mval = 1\<rparr>,
      \<lparr>mrow = (i, j), mcol = (i + 1, j), mval = 0\<rparr>,
      \<lparr>mrow = (i, j), mcol = (i - 1, j), mval = 0\<rparr>,
      \<lparr>mrow = (i, j), mcol = (i, j + 1), mval = 0\<rparr>,
      \<lparr>mrow = (i, j), mcol = (i, j - 1), mval = 0\<rparr>]"

text \<open>
  The indices a process owns along one axis, and the cells owned by all processes together.
\<close>

definition owned :: "int list \<Rightarrow> nat \<Rightarrow> int set" where
  "owned lx k = {fst (block_range lx k) ..< snd (block_range lx k)}"

definition covered :: "int list \<times> int list \<Rightarrow> (int \<times> int) set" where
  "covered rg =
     (\<Union>kx<length (fst rg). \<Union>ky<length (snd rg). owned (fst rg) kx \<times> owned (snd rg) ky)"

text \<open>Five columns on two processes along x; the second process is the one at the east.\<close>

definition uneven_settings :: settings where
  "uneven_settings =
     \<lparr>nx = 5, ny = 2, enable_cyclic_x = False, congr_epsilon = 1 / 10 ^ 8,
      congr_max_iterations = 1000\<rparr>"

definition two_by_one :: runtime where
  "two_by_one = \<lparr>num_proc = (2, 1), proc_idx = (1, 0)\<rparr>"

text \<open>The request the constructor passes to the descriptor library.\<close>

definition construction_request :: "settings \<Rightarrow> runtime \<Rightarrow> dmda" where
  "construction_request st rt =
     dmda_request st rt
       (if enable_cyclic_x st then (Periodic, Ghosted) else (Ghosted, Ghosted))
       (replicate (nat (fst (num_proc rt))) (nx st div fst (num_proc rt)),
        replicate (nat (snd (num_proc rt))) (ny st div snd (num_proc rt)))"

section \<open>Array lemmas\<close>

lemma sl_length: "length (sl a b xs) = length xs - b - a"
  by (simp add: sl_def)

lemma sl_nth: "k < length xs - b - a \<Longrightarrow> sl a b xs ! k = xs ! (a + k)"
  by (simp add: sl_def)

lemma has_shape_nth: "has_shape n m a \<Longrightarrow> i < n \<Longrightarrow> length (a ! i) = m"
  by (simp add: has_shape_def list_all_length)

lemma has_shape_length: "has_shape n m a \<Longrightarrow> length a = n"
  by (simp add: has_shape_def)

lemma tabulate2_nth: "i < n \<Longrightarrow> j < m \<Longrightarrow> tabulate2 n m f ! i ! j = f i j"
  by (simp add: tabulate2_def)

lemma tabulate2_length: "length (tabulate2 n m f) = n"
  by (simp add: tabulate2_def)

lemma tabulate2_row_length: "i < n \<Longrightarrow> length (tabulate2 n m f ! i) = m"
  by (simp add: tabulate2_def)

lemma interior_length: "length (interior a) = length a - 4"
  by (simp add: interior_def sl_length)

lemma interior_row_length:
  "has_shape n m a \<Longrightarrow> i < n - 4 \<Longrightarrow> length (interior a ! i) = m - 4"
  by (simp add: interior_def sl_length sl_nth has_shape_nth has_shape_length)

lemma interior_nth:
  "has_shape n m a \<Longrightarrow> i < n - 4 \<Longrightarrow> j < m - 4 \<Longrightarrow> interior a ! i ! j = a ! (i + 2) ! (j + 2)"
  by (simp add: interior_def sl_length sl_nth has_shape_nth has_shape_length add.commute)

lemma shape1_eq: "has_shape n m a \<Longrightarrow> 0 < n \<Longrightarrow> shape1 a = m"
  by (cases a) (simp_all add: shape1_def has_shape_def)

lemma vars_shape_ok_mask:
  "vars_shape_ok vs \<Longrightarrow> has_shape (shape0 (hvr vs)) (shape1 (hvr vs)) (boundary_mask vs)"
  by (simp add: vars_shape_ok_def Let_def)

lemma interior_mask_length:
  "vars_shape_ok vs \<Longrightarrow> length (interior_mask vs) = nxl vs"
  using has_shape_length [OF vars_shape_ok_mask, of vs]
  by (simp add: interior_mask_def all_not_axis2_def nxl_def interior_length)

lemma interior_mask_row_length:
  assumes "vars_shape_ok vs" "i < nxl vs"
  shows "length (interior_mask vs ! i) = nyl vs"
proof -
  note sh = vars_shape_ok_mask [OF assms(1)]
  have "i < length (interior (boundary_mask vs))"
    using assms(2) has_shape_length [OF sh] by (simp add: interior_length nxl_def)
  then show ?thesis
    using interior_row_length [OF sh, of i] assms(2)
    by (simp add: interior_mask_def all_not_axis2_def nxl_def nyl_def)
qed

lemma interior_mask_nth:
  assumes "vars_shape_ok vs" "i < nxl vs" "j < nyl vs"
  shows "interior_mask vs ! i ! j = list_all Not (boundary_mask vs ! (i + 2) ! (j + 2))"
proof -
  note sh = vars_shape_ok_mask [OF assms(1)]
  have li: "i < length (interior (boundary_mask vs))"
    using assms(2) has_shape_length [OF sh] by (simp add: interior_length nxl_def)
  have lj: "j < length (interior (boundary_mask vs) ! i)"
    using interior_row_length [OF sh, of i] assms(2,3) by (simp add: nxl_def nyl_def)
  have "interior (boundary_mask vs) ! i ! j = boundary_mask vs ! (i + 2) ! (j + 2)"
    using interior_nth [OF sh, of i j] assms(2,3) by (simp add: nxl_def nyl_def)
  then show ?thesis
    using li lj by (simp add: interior_mask_def all_not_axis2_def)
qed

lemma mask_times_nth:
  assumes "length mk = n" "length a = n" "length (mk ! i) = m" "length (a ! i) = m" "i < n" "j < m"
  shows "mask_times mk a ! i ! j = of_mask (mk ! i ! j) * a ! i ! j"
  using assms by (simp add: mask_times_def)

lemma times_mask_nth:
  assumes "length mk = n" "length a = n" "length (mk ! i) = m" "length (a ! i) = m" "i < n" "j < m"
  shows "times_mask a mk ! i ! j = a ! i ! j * of_mask (mk ! i ! j)"
  using assms by (simp add: times_mask_def)

lemma mask_times_length: "length mk = n \<Longrightarrow> length a = n \<Longrightarrow> length (mask_times mk a) = n"
  by (simp add: mask_times_def)

lemma mask_times_row_length:
  "length mk = n \<Longrightarrow> length a = n \<Longrightarrow> length (mk ! i) = m \<Longrightarrow> length (a ! i) = m \<Longrightarrow> i < n
   \<Longrightarrow> length (mask_times mk a ! i) = m"
  by (simp add: mask_times_def)

lemma masked_diag_nth:
  assumes "vars_shape_ok vs" "i < nxl vs" "j < nyl vs"
  shows "mask_times (interior_mask vs) (tabulate2 (nxl vs) (nyl vs) f) ! i ! j
         = of_mask (list_all Not (boundary_mask vs ! (i + 2) ! (j + 2))) * f i j"
  using assms
  by (simp add: mask_times_nth [where n = "nxl vs" and m = "nyl vs"] interior_mask_length
      interior_mask_row_length tabulate2_length tabulate2_row_length tabulate2_nth
      interior_mask_nth)

lemma masked_diag_length:
  "vars_shape_ok vs \<Longrightarrow> length (mask_times (interior_mask vs) (tabulate2 (nxl vs) (nyl vs) f)) = nxl vs"
  by (simp add: mask_times_length interior_mask_length tabulate2_length)

lemma masked_diag_row_length:
  "vars_shape_ok vs \<Longrightarrow> i < nxl vs \<Longrightarrow>
   length (mask_times (interior_mask vs) (tabulate2 (nxl vs) (nyl vs) f) ! i) = nyl vs"
  by (simp add: mask_times_row_length [where n = "nxl vs"] interior_mask_length tabulate2_length
      interior_mask_row_length tabulate2_row_length)

lemma main_diag_nth:
  assumes "vars_shape_ok vs" "i < nxl vs" "j < nyl vs"
  shows "main_diag vs ! i ! j =
     (let x = main_term vs i j * of_mask (list_all Not (boundary_mask vs ! (i + 2) ! (j + 2)))
      in if x = 0 then 1 else x)"
  using assms
  by (simp add: main_diag_def main_diag_raw_def times_mask_def Let_def interior_mask_length
      interior_mask_row_length tabulate2_length tabulate2_row_length tabulate2_nth
      interior_mask_nth)

lemma main_diag_length: "vars_shape_ok vs \<Longrightarrow> length (main_diag vs) = nxl vs"
  by (simp add: main_diag_def main_diag_raw_def times_mask_def interior_mask_length tabulate2_length)

lemma main_diag_row_length:
  "vars_shape_ok vs \<Longrightarrow> i < nxl vs \<Longrightarrow> length (main_diag vs ! i) = nyl vs"
  by (simp add: main_diag_def main_diag_raw_def times_mask_def interior_mask_length tabulate2_length
      interior_mask_row_length tabulate2_row_length)

section \<open>The assembled coefficients\<close>

lemma diag_nth:
  assumes "i < nxl vs" "j < nyl vs"
  shows "main_diag_raw vs ! i ! j = main_term vs i j"
    and "east_diag vs ! i ! j = east_term vs i j"
    and "west_diag vs ! i ! j = west_term vs i j"
    and "north_diag vs ! i ! j = north_term vs i j"
    and "south_diag vs ! i ! j = south_term vs i j"
  using assms
  by (simp_all add: main_diag_raw_def east_diag_def west_diag_def north_diag_def south_diag_def
      tabulate2_nth)

lemma main_term_sum:
  "main_term vs i j
   = - (east_term vs i j + west_term vs i j + north_term vs i j + south_term vs i j)"
  unfolding main_term_def east_term_def west_term_def north_term_def south_term_def
  by (simp add: field_simps)

lemma cf_nth:
  assumes "vars_shape_ok vs" "i < nxl vs" "j < nyl vs"
  shows "cf vs ! 1 ! i ! j
           = of_mask (list_all Not (boundary_mask vs ! (i + 2) ! (j + 2))) * east_term vs i j"
    and "cf vs ! 2 ! i ! j
           = of_mask (list_all Not (boundary_mask vs ! (i + 2) ! (j + 2))) * west_term vs i j"
    and "cf vs ! 3 ! i ! j
           = of_mask (list_all Not (boundary_mask vs ! (i + 2) ! (j + 2))) * north_term vs i j"
    and "cf vs ! 4 ! i ! j
           = of_mask (list_all Not (boundary_mask vs ! (i + 2) ! (j + 2))) * south_term vs i j"
  using assms
  by (simp_all add: cf_def east_diag_def west_diag_def north_diag_def south_diag_def
      masked_diag_nth)

lemma cf_0_nth:
  assumes "vars_shape_ok vs" "i < nxl vs" "j < nyl vs"
  shows "cf vs ! 0 ! i ! j =
     (let x = main_term vs i j * of_mask (list_all Not (boundary_mask vs ! (i + 2) ! (j + 2)))
      in if x = 0 then 1 else x)"
  using assms by (simp add: cf_def main_diag_nth)

text \<open>
  Claim C6.  For every owned interior cell the center coefficient, before masking, is the
  negative of the sum of the east, west, north and south terms.  The east and west terms are
  a transport coefficient over a product of grid spacings times \<open>1 / cosu\<^sup>2\<close>, the north and
  south terms one times \<open>cost / cosu\<close>, and on a cell without boundary flag the off-diagonal
  coefficients handed to the matrix are these terms themselves.
\<close>

theorem center_coefficient_negated_sum:
  assumes "vars_shape_ok vs" and "metrics_nonzero vs" and "i < nxl vs" and "j < nyl vs"
  shows "main_diag_raw vs ! i ! j
           = - (east_diag vs ! i ! j + west_diag vs ! i ! j
                + north_diag vs ! i ! j + south_diag vs ! i ! j)
         \<and> east_diag vs ! i ! j
           = hvr vs ! (i + 3) ! (j + 2) / (dxu vs ! (i + 2) * dxt vs ! (i + 3))
             * (1 / (cosu vs ! (j + 2)) ^ 2)
         \<and> west_diag vs ! i ! j
           = hvr vs ! (i + 2) ! (j + 2) / (dxu vs ! (i + 2) * dxt vs ! (i + 2))
             * (1 / (cosu vs ! (j + 2)) ^ 2)
         \<and> north_diag vs ! i ! j
           = hur vs ! (i + 2) ! (j + 3) / (dyu vs ! (j + 2) * dyt vs ! (j + 3))
             * (cost vs ! (j + 3) / cosu vs ! (j + 2))
         \<and> south_diag vs ! i ! j
           = hur vs ! (i + 2) ! (j + 2) / (dyu vs ! (j + 2) * dyt vs ! (j + 2))
             * (cost vs ! (j + 2) / cosu vs ! (j + 2))
         \<and> (list_all Not (boundary_mask vs ! (i + 2) ! (j + 2)) \<longrightarrow>
              cf vs ! 1 ! i ! j = east_diag vs ! i ! j \<and> cf vs ! 2 ! i ! j = west_diag vs ! i ! j \<and>
              cf vs ! 3 ! i ! j = north_diag vs ! i ! j \<and> cf vs ! 4 ! i ! j = south_diag vs ! i ! j)"
proof -
  note d = diag_nth [OF assms(3,4)]
  have c: "main_diag_raw vs ! i ! j
           = - (east_diag vs ! i ! j + west_diag vs ! i ! j
                + north_diag vs ! i ! j + south_diag vs ! i ! j)"
    by (simp only: d main_term_sum)
  have e: "east_diag vs ! i ! j
           = hvr vs ! (i + 3) ! (j + 2) / (dxu vs ! (i + 2) * dxt vs ! (i + 3))
             * (1 / (cosu vs ! (j + 2)) ^ 2)"
    by (simp add: d east_term_def)
  have w: "west_diag vs ! i ! j
           = hvr vs ! (i + 2) ! (j + 2) / (dxu vs ! (i + 2) * dxt vs ! (i + 2))
             * (1 / (cosu vs ! (j + 2)) ^ 2)"
    by (simp add: d west_term_def)
  have n: "north_diag vs ! i ! j
           = hur vs ! (i + 2) ! (j + 3) / (dyu vs ! (j + 2) * dyt vs ! (j + 3))
             * (cost vs ! (j + 3) / cosu vs ! (j + 2))"
    by (simp add: d north_term_def)
  have s: "south_diag vs ! i ! j
           = hur vs ! (i + 2) ! (j + 2) / (dyu vs ! (j + 2) * dyt vs ! (j + 2))
             * (cost vs ! (j + 2) / cosu vs ! (j + 2))"
    by (simp add: d south_term_def)
  have m: "list_all Not (boundary_mask vs ! (i + 2) ! (j + 2)) \<longrightarrow>
              cf vs ! 1 ! i ! j = east_diag vs ! i ! j \<and> cf vs ! 2 ! i ! j = west_diag vs ! i ! j \<and>
              cf vs ! 3 ! i ! j = north_diag vs ! i ! j \<and> cf vs ! 4 ! i ! j = south_diag vs ! i ! j"
    unfolding cf_nth [OF assms(1,3,4)] d by (simp add: of_mask_def)
  from c e w n s m show ?thesis by blast
qed

theorem center_coefficient_negated_sum_witness:
  "vars_shape_ok (box_vars 6 6 [False]) \<and> metrics_nonzero (box_vars 6 6 [False]) \<and>
   0 < nxl (box_vars 6 6 [False]) \<and> 1 < nyl (box_vars 6 6 [False]) \<and>
   main_diag_raw (box_vars 6 6 [False]) ! 0 ! 1 = - 11 \<and>
   east_diag (box_vars 6 6 [False]) ! 0 ! 1 = 4 \<and>
   north_diag (box_vars 6 6 [False]) ! 0 ! 1 = 3 / 2 \<and>
   cf (box_vars 6 6 [False]) ! 1 ! 0 ! 1 = 4"
proof -
  have h1: "vars_shape_ok (box_vars 6 6 [False])" by code_simp
  have h2: "metrics_nonzero (box_vars 6 6 [False])" by code_simp
  have h3: "0 < nxl (box_vars 6 6 [False])" by code_simp
  have h4: "1 < nyl (box_vars 6 6 [False])" by code_simp
  have v: "east_diag (box_vars 6 6 [False]) ! 0 ! 1 = 4"
    "west_diag (box_vars 6 6 [False]) ! 0 ! 1 = 4"
    "north_diag (box_vars 6 6 [False]) ! 0 ! 1 = 3 / 2"
    "south_diag (box_vars 6 6 [False]) ! 0 ! 1 = 3 / 2"
    "list_all Not (boundary_mask (box_vars 6 6 [False]) ! (0 + 2) ! (1 + 2))"
    by code_simp+
  show ?thesis
    using center_coefficient_negated_sum [OF h1 h2 h3 h4] h1 h2 h3 h4 v by simp
qed

lemma uniform1_nth: "uniform1 c v \<Longrightarrow> k < length v \<Longrightarrow> v ! k = c"
  by (simp add: uniform1_def list_all_length)

lemma uniform2_nth: "uniform2 c a \<Longrightarrow> i < length a \<Longrightarrow> j < length (a ! i) \<Longrightarrow> a ! i ! j = c"
  by (simp add: uniform2_def list_all_length)

lemma vars_shape_ok_lengths:
  assumes "vars_shape_ok vs" "0 < nxl vs"
  shows "length (hvr vs) = nxl vs + 4" "length (hur vs) = nxl vs + 4"
    "length (dxu vs) = nxl vs + 4" "length (dxt vs) = nxl vs + 4"
    "0 < nyl vs \<Longrightarrow> length (dyu vs) = nyl vs + 4" "0 < nyl vs \<Longrightarrow> length (dyt vs) = nyl vs + 4"
    "0 < nyl vs \<Longrightarrow> length (cosu vs) = nyl vs + 4" "0 < nyl vs \<Longrightarrow> length (cost vs) = nyl vs + 4"
    "0 < nyl vs \<Longrightarrow> has_shape (nxl vs + 4) (nyl vs + 4) (hvr vs)"
    "0 < nyl vs \<Longrightarrow> has_shape (nxl vs + 4) (nyl vs + 4) (hur vs)"
    "0 < nyl vs \<Longrightarrow> has_shape (nxl vs + 4) (nyl vs + 4) (boundary_mask vs)"
  using assms
  by (simp_all add: vars_shape_ok_def Let_def nxl_def nyl_def shape0_def has_shape_def)

lemma unmasked_nth:
  assumes "unmasked vs" "i < length (boundary_mask vs)" "j < length (boundary_mask vs ! i)"
  shows "list_all Not (boundary_mask vs ! i ! j)"
  using assms by (simp add: unmasked_def list_all_length)

lemma uniform_terms:
  assumes ok: "vars_shape_ok vs"
    and u: "uniform2 h (hvr vs)" "uniform2 u (hur vs)" "uniform1 a (dxu vs)" "uniform1 b (dxt vs)"
      "uniform1 c (dyu vs)" "uniform1 d (dyt vs)" "uniform1 e (cosu vs)" "uniform1 f (cost vs)"
    and ij: "i < nxl vs" "j < nyl vs"
  shows "east_term vs i j = h / a / b / e ^ 2" and "west_term vs i j = h / a / b / e ^ 2"
    and "north_term vs i j = u / c / d * f / e" and "south_term vs i j = u / c / d * f / e"
proof -
  have p: "0 < nxl vs" "0 < nyl vs" using ij by auto
  note l = vars_shape_ok_lengths [OF ok p(1)] 
  note l2 = l(1-4) l(5-11) [OF p(2)]
  have r: "length (hvr vs ! (i + 2)) = nyl vs + 4" "length (hvr vs ! (i + 3)) = nyl vs + 4"
    "length (hur vs ! (i + 2)) = nyl vs + 4"
    using has_shape_nth [OF l2(9)] has_shape_nth [OF l2(10)] ij by simp_all
  have v: "hvr vs ! (i + 2) ! (j + 2) = h" "hvr vs ! (i + 3) ! (j + 2) = h"
    "hur vs ! (i + 2) ! (j + 2) = u" "hur vs ! (i + 2) ! (j + 3) = u"
    using u(1,2) ij l2 r by (simp_all add: uniform2_nth)
  have w: "dxu vs ! (i + 2) = a" "dxt vs ! (i + 2) = b" "dxt vs ! (i + 3) = b"
    "dyu vs ! (j + 2) = c" "dyt vs ! (j + 2) = d" "dyt vs ! (j + 3) = d"
    "cosu vs ! (j + 2) = e" "cost vs ! (j + 2) = f" "cost vs ! (j + 3) = f"
    using u(3-8) ij l2 by (simp_all add: uniform1_nth)
  show "east_term vs i j = h / a / b / e ^ 2" "west_term vs i j = h / a / b / e ^ 2"
    "north_term vs i j = u / c / d * f / e" "south_term vs i j = u / c / d * f / e"
    unfolding east_term_def west_term_def north_term_def south_term_def v w by simp_all
qed

lemma unmasked_cell:
  assumes ok: "vars_shape_ok vs" and um: "unmasked vs" and ij: "i < nxl vs" "j < nyl vs"
  shows "list_all Not (boundary_mask vs ! (i + 2) ! (j + 2))"
proof -
  have p: "0 < nxl vs" "0 < nyl vs" using ij by auto
  note sh = vars_shape_ok_lengths(11) [OF ok p]
  show ?thesis
    using unmasked_nth [OF um, of "i + 2" "j + 2"] has_shape_nth [OF sh, of "i + 2"]
      has_shape_length [OF sh] ij by simp
qed

text \<open>
  Claim C9.  With every coefficient field uniform and no cell flagged, the operator is
  symmetric: the east coefficient of cell \<open>(i, j)\<close> is the west coefficient of cell
  \<open>(i + 1, j)\<close>, the north coefficient of \<open>(i, j)\<close> is the south coefficient of
  \<open>(i, j + 1)\<close>, and across the periodic seam the east coefficient of the last column is the
  west coefficient of the first.
\<close>

theorem uniform_operator_symmetric:
  assumes "vars_shape_ok vs" and "metrics_nonzero vs" and "unmasked vs"
    and "uniform2 h (hvr vs)" and "uniform2 u (hur vs)"
    and "uniform1 a (dxu vs)" and "uniform1 b (dxt vs)"
    and "uniform1 c (dyu vs)" and "uniform1 d (dyt vs)"
    and "uniform1 e (cosu vs)" and "uniform1 f (cost vs)"
  shows "(i + 1 < nxl vs \<and> j < nyl vs \<longrightarrow> cf vs ! 1 ! i ! j = cf vs ! 2 ! (i + 1) ! j)
       \<and> (i < nxl vs \<and> j + 1 < nyl vs \<longrightarrow> cf vs ! 3 ! i ! j = cf vs ! 4 ! i ! (j + 1))
       \<and> (0 < nxl vs \<and> j < nyl vs \<longrightarrow> cf vs ! 1 ! (nxl vs - 1) ! j = cf vs ! 2 ! 0 ! j)"
proof -
  note t = uniform_terms [OF assms(1,4-11)]
  have ew: "cf vs ! 1 ! k ! l = cf vs ! 2 ! k' ! l" if "k < nxl vs" "k' < nxl vs" "l < nyl vs" for k k' l
    unfolding cf_nth [OF assms(1) that(1,3)] cf_nth [OF assms(1) that(2,3)]
      t [OF that(1,3)] t [OF that(2,3)]
    using unmasked_cell [OF assms(1,3) that(1,3)] unmasked_cell [OF assms(1,3) that(2,3)]
    by simp
  have ns: "cf vs ! 3 ! k ! l = cf vs ! 4 ! k ! l'" if "k < nxl vs" "l < nyl vs" "l' < nyl vs" for k l l'
    unfolding cf_nth [OF assms(1) that(1,2)] cf_nth [OF assms(1) that(1,3)]
      t [OF that(1,2)] t [OF that(1,3)]
    using unmasked_cell [OF assms(1,3) that(1,2)] unmasked_cell [OF assms(1,3) that(1,3)]
    by simp
  show ?thesis
    using ew [of i "i + 1" j] ns [of i j "j + 1"] ew [of "nxl vs - 1" 0 j] by simp
qed

theorem uniform_operator_symmetric_witness:
  "vars_shape_ok (box_vars 6 6 [False]) \<and> metrics_nonzero (box_vars 6 6 [False]) \<and>
   unmasked (box_vars 6 6 [False]) \<and>
   0 + 1 < nxl (box_vars 6 6 [False]) \<and> 0 + 1 < nyl (box_vars 6 6 [False]) \<and>
   cf (box_vars 6 6 [False]) ! 1 ! 0 ! 0 = cf (box_vars 6 6 [False]) ! 2 ! (0 + 1) ! 0 \<and>
   cf (box_vars 6 6 [False]) ! 3 ! 0 ! 0 = cf (box_vars 6 6 [False]) ! 4 ! 0 ! (0 + 1) \<and>
   cf (box_vars 6 6 [False]) ! 1 ! 0 ! 0 = 4"
proof -
  have h: "vars_shape_ok (box_vars 6 6 [False])" "metrics_nonzero (box_vars 6 6 [False])"
    "unmasked (box_vars 6 6 [False])"
    "uniform2 2 (hvr (box_vars 6 6 [False]))" "uniform2 3 (hur (box_vars 6 6 [False]))"
    "uniform1 1 (dxu (box_vars 6 6 [False]))" "uniform1 2 (dxt (box_vars 6 6 [False]))"
    "uniform1 1 (dyu (box_vars 6 6 [False]))" "uniform1 4 (dyt (box_vars 6 6 [False]))"
    "uniform1 (1 / 2) (cosu (box_vars 6 6 [False]))" "uniform1 1 (cost (box_vars 6 6 [False]))"
    by code_simp+
  have r: "0 + 1 < nxl (box_vars 6 6 [False])" "0 + 1 < nyl (box_vars 6 6 [False])"
    "(0::nat) < nyl (box_vars 6 6 [False])" "(0::nat) < nxl (box_vars 6 6 [False])"
    by code_simp+
  have v: "cf (box_vars 6 6 [False]) ! 1 ! 0 ! 0 = 4" by code_simp
  show ?thesis
    using uniform_operator_symmetric [OF h, of 0 0] h(1-3) r v by simp
qed

section \<open>Masking the right-hand side\<close>

lemma has_shape_map_length: "has_shape n m a \<longleftrightarrow> map length a = replicate n m"
  by (auto simp: has_shape_def list_all_length list_eq_iff_nth_eq)

lemma where2_length:
  "length c = n \<Longrightarrow> length a = n \<Longrightarrow> length b = n \<Longrightarrow> length (where2 c a b) = n"
  by (simp add: where2_def)

lemma where2_row_length:
  assumes "has_shape n m c" "has_shape n m a" "has_shape n m b" "i < n"
  shows "length (where2 c a b ! i) = m"
  using assms has_shape_nth [of n m c i] has_shape_nth [of n m a i] has_shape_nth [of n m b i]
  by (simp add: where2_def has_shape_length)

lemma where2_nth:
  assumes "has_shape n m c" "has_shape n m a" "has_shape n m b" "i < n" "j < m"
  shows "where2 c a b ! i ! j = (if c ! i ! j then a ! i ! j else b ! i ! j)"
  using assms has_shape_nth [of n m c i] has_shape_nth [of n m a i] has_shape_nth [of n m b i]
  by (simp add: where2_def has_shape_length)

lemma where2_shape:
  assumes "has_shape n m c" "has_shape n m a" "has_shape n m b"
  shows "has_shape n m (where2 c a b)"
  using where2_row_length [OF assms] assms
  by (simp add: has_shape_def list_all_length where2_length)

lemma np_where_ok:
  assumes "has_shape n m c" "has_shape n m a" "has_shape n m b"
  shows "np_where c a b = Inr (where2 c a b)"
  using assms by (simp add: np_where_def has_shape_map_length)

lemma all_not_axis2_shape: "has_shape n m a \<Longrightarrow> has_shape n m (all_not_axis2 a)"
  by (simp add: has_shape_def all_not_axis2_def list_all_length)

lemma all_not_axis2_nth:
  "has_shape n m a \<Longrightarrow> i < n \<Longrightarrow> j < m \<Longrightarrow> all_not_axis2 a ! i ! j = list_all Not (a ! i ! j)"
  by (simp add: has_shape_def all_not_axis2_def list_all_length)

lemma not_all_not_iff: "\<not> list_all Not lv \<longleftrightarrow> list_ex (\<lambda>b. b) lv"
  by (induction lv) auto

lemma solve_setup_ok:
  assumes "has_shape n m (boundary_mask vs)" "has_shape n m rhs" "has_shape n m bv"
  shows "solve_setup enf st vs rhs x0 (Some bv)
         = Inr (enf x0 (enable_cyclic_x st), where2 (all_not_axis2 (boundary_mask vs)) rhs bv)"
  using np_where_ok [OF all_not_axis2_shape [OF assms(1)] assms(2,3)]
  by (simp add: solve_setup_def bindE_def)

lemma solve_setup_none:
  "solve_setup enf st vs rhs x0 None = solve_setup enf st vs rhs x0 (Some x0)"
  by (simp add: solve_setup_def)

lemma masked_rhs_nth:
  assumes "has_shape n m (boundary_mask vs)" "has_shape n m rhs" "has_shape n m bv"
    "i < n" "j < m"
  shows "where2 (all_not_axis2 (boundary_mask vs)) rhs bv ! i ! j
         = (if flagged vs i j then bv ! i ! j else rhs ! i ! j)"
  using where2_nth [OF all_not_axis2_shape [OF assms(1)] assms(2,3,4,5)]
    all_not_axis2_nth [OF assms(1,4,5)] not_all_not_iff [of "boundary_mask vs ! i ! j"]
  by (auto simp: flagged_def)

text \<open>
  Claim C4, as the code has it.  After line 98 a cell of the right-hand side holds
  \<open>boundary_val\<close> (the argument, or \<open>x0\<close> when it is omitted) exactly when it is flagged, that is when at least one entry of the boundary
  mask along the last axis is set at that cell, and the caller's value otherwise.  A cell
  need not be flagged in all entries to receive \<open>boundary_val\<close>.
\<close>

theorem rhs_takes_boundary_val_on_flagged_cells:
  assumes "has_shape n m (boundary_mask vs)" and "has_shape n m rhs"
    and "has_shape n m (boundary_val_of x0 bvo)" and "i < n" and "j < m"
  shows "\<exists>r. solve_setup enf st vs rhs x0 bvo = Inr (enf x0 (enable_cyclic_x st), r)
             \<and> has_shape n m r
             \<and> r ! i ! j
               = (if flagged vs i j then boundary_val_of x0 bvo ! i ! j else rhs ! i ! j)"
proof -
  have "solve_setup enf st vs rhs x0 bvo
        = solve_setup enf st vs rhs x0 (Some (boundary_val_of x0 bvo))"
    by (cases bvo) (simp_all add: boundary_val_of_def solve_setup_none)
  then show ?thesis
    using solve_setup_ok [OF assms(1,2,3)] masked_rhs_nth [OF assms]
      where2_shape [OF all_not_axis2_shape [OF assms(1)] assms(2,3)]
    by simp
qed

theorem rhs_takes_boundary_val_on_flagged_cells_witness:
  "has_shape 6 6 (boundary_mask (box_vars 6 6 [True, False])) \<and>
   flagged (box_vars 6 6 [True, False]) 2 3 \<and>
   (\<exists>r. solve_setup enforce_boundaries wall_settings (box_vars 6 6 [True, False])
            (ramp 6 6) (const2 6 6 0) (Some (const2 6 6 7))
          = Inr (enforce_boundaries (const2 6 6 0) (enable_cyclic_x wall_settings), r)
        \<and> r ! 2 ! 3 = 7)"
proof -
  have h: "has_shape 6 6 (boundary_mask (box_vars 6 6 [True, False]))"
    "has_shape 6 6 (ramp 6 6)"
    "has_shape 6 6 (boundary_val_of (const2 6 6 0) (Some (const2 6 6 7)))"
    "(2::nat) < 6" "(3::nat) < 6"
    by code_simp+
  have v: "flagged (box_vars 6 6 [True, False]) 2 3"
    "boundary_val_of (const2 6 6 0) (Some (const2 6 6 7)) ! 2 ! 3 = 7"
    by code_simp+
  show ?thesis
    using rhs_takes_boundary_val_on_flagged_cells
        [where enf = enforce_boundaries and st = wall_settings, OF h] h(1) v
    by auto
qed

text \<open>
  A cell flagged in one of two entries is not fully flagged, and still its right-hand side
  value 23 is replaced by the boundary value 7.
\<close>

theorem partly_flagged_cell_counterexample:
  "\<not> fully_flagged (box_vars 6 6 [True, False]) 2 3 \<and>
   \<not> list_all Not (boundary_mask (box_vars 6 6 [True, False]) ! 2 ! 3) \<and>
   ramp 6 6 ! 2 ! 3 = 23 \<and>
   (case solve_setup enforce_boundaries wall_settings (box_vars 6 6 [True, False])
           (ramp 6 6) (const2 6 6 0) (Some (const2 6 6 7)) of
      Inr (x, r) \<Rightarrow> r ! 2 ! 3 | Inl e \<Rightarrow> 23) = 7"
  by code_simp

text \<open>
  Claim C10.  With \<open>boundary_val\<close> omitted, the value put into a flagged cell of the
  right-hand side is that of \<open>x0\<close> as the caller passed it, whatever \<open>enforce_boundaries\<close>
  returns for \<open>x0\<close>; the initial guess handed on is the enforced field.  Omitting
  \<open>boundary_val\<close> is the same as passing \<open>x0\<close> for it.
\<close>

theorem default_boundary_val_is_x0_as_passed:
  assumes "has_shape n m (boundary_mask vs)" and "has_shape n m rhs" and "has_shape n m x0"
    and "i < n" and "j < m"
  shows "(\<exists>r. solve_setup enf st vs rhs x0 None = Inr (enf x0 (enable_cyclic_x st), r)
              \<and> r ! i ! j = (if flagged vs i j then x0 ! i ! j else rhs ! i ! j))
         \<and> solve engine enf slv st rt vs lg rhs x0 None
           = solve engine enf slv st rt vs lg rhs x0 (Some x0)"
  using solve_setup_ok [OF assms(1,2,3)] masked_rhs_nth [OF assms]
  by (simp add: solve_setup_none solve_def)

text \<open>
  On a cyclic grid the wrap changes the ghost cell \<open>(0, 3)\<close> of the ramp from 3 to 23; the
  flagged cell of the right-hand side receives 3.
\<close>

theorem default_boundary_val_is_x0_as_passed_witness:
  "has_shape 6 6 (boundary_mask (box_vars 6 6 [True, False])) \<and>
   flagged (box_vars 6 6 [True, False]) 0 3 \<and>
   ramp 6 6 ! 0 ! 3 = 3 \<and>
   enforce_boundaries (ramp 6 6) (enable_cyclic_x cyclic_settings) ! 0 ! 3 = 23 \<and>
   (\<exists>r. solve_setup enforce_boundaries cyclic_settings (box_vars 6 6 [True, False])
            (const2 6 6 0) (ramp 6 6) None
          = Inr (enforce_boundaries (ramp 6 6) (enable_cyclic_x cyclic_settings), r)
        \<and> r ! 0 ! 3 = 3)"
proof -
  have h: "has_shape 6 6 (boundary_mask (box_vars 6 6 [True, False]))"
    "has_shape 6 6 (const2 6 6 0)" "has_shape 6 6 (ramp 6 6)" "(0::nat) < 6" "(3::nat) < 6"
    by code_simp+
  have v: "flagged (box_vars 6 6 [True, False]) 0 3" "ramp 6 6 ! 0 ! 3 = 3"
    "enforce_boundaries (ramp 6 6) (enable_cyclic_x cyclic_settings) ! 0 ! 3 = 23"
    by code_simp+
  show ?thesis
    using default_boundary_val_is_x0_as_passed [OF h, of enforce_boundaries cyclic_settings]
      h(1) v
    by auto
qed

section \<open>The Dirichlet correction of the right-hand side\<close>

lemma has_shape_iff_nth: "has_shape n m a \<longleftrightarrow> length a = n \<and> (\<forall>i<n. length (a ! i) = m)"
  by (auto simp: has_shape_def list_all_length)

lemma py_index_neg: "0 < k \<Longrightarrow> k \<le> int n \<Longrightarrow> py_index n (- k) = Some (n - nat k)"
  by (auto simp: py_index_def nat_diff_distrib)

lemma py_index_pos: "0 \<le> k \<Longrightarrow> k < int n \<Longrightarrow> py_index n k = Some (nat k)"
  by (simp add: py_index_def)

lemma add_sl_length: "length v = length row - 4 \<Longrightarrow> length (add_sl row v) = length row"
  by (simp add: add_sl_def sl_length)

lemma sl_nth': "a \<le> k \<Longrightarrow> k < length xs - b \<Longrightarrow> sl a b xs ! (k - a) = xs ! k"
  by (simp add: sl_def)

lemma three_parts_nth:
  assumes "length A = 2" "length B = n - 4" "4 \<le> n" "k < n" "length C = 2"
  shows "(A @ B @ C) ! k
         = (if k < 2 then A ! k else if k < n - 2 then B ! (k - 2) else C ! (k - (n - 2)))"
proof -
  have "k - 2 - (n - 4) = k - (n - 2)" if "\<not> k < n - 2" using that assms(3) by linarith
  moreover have "k - 2 < n - 4 \<longleftrightarrow> k < n - 2" if "\<not> k < 2" using that assms(3) by linarith
  ultimately show ?thesis using assms by (simp add: nth_append)
qed

lemma add_sl_nth:
  assumes "length v = length row - 4" "4 \<le> length row" "j < length row"
  shows "add_sl row v ! j
         = (if 2 \<le> j \<and> j < length row - 2 then row ! j + v ! (j - 2) else row ! j)"
proof -
  let ?n = "length row"
  have B: "length (map2 (+) (sl 2 2 row) v) = ?n - 4"
    using assms(1) by (simp add: sl_length)
  have "2 + (?n - 2 - 2) = ?n - 2" using assms(2) by linarith
  then have d: "drop (2 + length (sl 2 2 row)) row = drop (?n - 2) row"
    by (simp only: sl_length)
  have e: "add_sl row v ! j
         = (if j < 2 then take 2 row ! j
            else if j < ?n - 2 then map2 (+) (sl 2 2 row) v ! (j - 2)
            else drop (?n - 2) row ! (j - (?n - 2)))"
    unfolding add_sl_def d
    using three_parts_nth [OF _ B assms(2,3), of "take 2 row" "drop (?n - 2) row"] assms(2)
    by simp
  have m: "map2 (+) (sl 2 2 row) v ! (j - 2) = row ! j + v ! (j - 2)" if "2 \<le> j" "j < ?n - 2"
  proof -
    have "j - 2 < ?n - 4" using that by linarith
    then show ?thesis
      using sl_nth' [of 2 j row 2] that assms(1) by (simp add: sl_length)
  qed
  have c: "drop (?n - 2) row ! (j - (?n - 2)) = row ! j" if "\<not> j < ?n - 2"
    using that assms(3) by simp
  show ?thesis using e m c by auto
qed

lemma inj_row_shape:
  assumes "has_shape n m a" "tgt < n" "src < n" "length fac = m - 4"
  shows "has_shape n m (inj_row a tgt src fac)"
proof -
  have "length (add_sl (a ! tgt) (map2 neg_mul (sl 2 2 (a ! src)) fac)) = m"
    using assms has_shape_nth [OF assms(1)] by (simp add: add_sl_length sl_length)
  then show ?thesis
    using assms(1,2) by (auto simp: has_shape_iff_nth inj_row_def nth_list_update)
qed

lemma inj_row_nth:
  assumes "has_shape n m a" "tgt < n" "src < n" "length fac = m - 4" "4 \<le> m" "i < n" "j < m"
  shows "inj_row a tgt src fac ! i ! j
         = (if i = tgt \<and> 2 \<le> j \<and> j < m - 2 then a ! i ! j + neg_mul (a ! src ! j) (fac ! (j - 2))
            else a ! i ! j)"
proof (cases "i = tgt")
  case False
  then show ?thesis using assms by (simp add: inj_row_def has_shape_length)
next
  case True
  have l: "length (a ! tgt) = m" "length (a ! src) = m"
    using has_shape_nth [OF assms(1)] assms(2,3) by simp_all
  have lv: "length (map2 neg_mul (sl 2 2 (a ! src)) fac) = length (a ! tgt) - 4"
    using l assms(4) by (simp add: sl_length)
  have "inj_row a tgt src fac ! tgt = add_sl (a ! tgt) (map2 neg_mul (sl 2 2 (a ! src)) fac)"
    using assms(1,2) by (simp add: inj_row_def has_shape_length)
  moreover have "map2 neg_mul (sl 2 2 (a ! src)) fac ! (j - 2)
                 = neg_mul (a ! src ! j) (fac ! (j - 2))" if "2 \<le> j" "j < m - 2"
  proof -
    have "j - 2 < m - 4" using that by linarith
    then show ?thesis
      using sl_nth' [of 2 j "a ! src" 2] that l assms(4) by (simp add: sl_length)
  qed
  ultimately show ?thesis
    using True add_sl_nth [OF lv, of j] l assms(5,7)
    by simp
qed

lemma row_step:
  assumes "has_shape n m a" "py_index n kt = Some tgt" "py_index n ks = Some src"
    "tgt < n" "src < n" "length fac = m - 4"
  shows "bindE (get_row a ks) (\<lambda>nb. bindE (neg_times nb fac) (\<lambda>v. update_add_row a kt v))
         = Inr (inj_row a tgt src fac)"
  using assms has_shape_nth [OF assms(1)]
  by (simp add: bindE_def get_row_def neg_times_def update_add_row_def shape0_def
      has_shape_length sl_length inj_row_def)

lemma add_col_sl_length: "length v = length a - 4 \<Longrightarrow> length (add_col_sl a c v) = length a"
  by (simp add: add_col_sl_def sl_length)

lemma add_col_sl_row:
  assumes "length v = length a - 4" "4 \<le> length a" "i < length a"
  shows "add_col_sl a c v ! i
         = (if 2 \<le> i \<and> i < length a - 2 then (a ! i)[c := a ! i ! c + v ! (i - 2)] else a ! i)"
proof -
  let ?n = "length a"
  let ?B = "map2 (\<lambda>row x. row[c := row ! c + x]) (sl 2 2 a) v"
  have B: "length ?B = ?n - 4"
    using assms(1) by (simp add: sl_length)
  have "2 + (?n - 2 - 2) = ?n - 2" using assms(2) by linarith
  then have d: "drop (2 + length (sl 2 2 a)) a = drop (?n - 2) a"
    by (simp only: sl_length)
  have e: "add_col_sl a c v ! i
         = (if i < 2 then take 2 a ! i
            else if i < ?n - 2 then ?B ! (i - 2)
            else drop (?n - 2) a ! (i - (?n - 2)))"
    unfolding add_col_sl_def d
    using three_parts_nth [OF _ B assms(2,3), of "take 2 a" "drop (?n - 2) a"] assms(2)
    by simp
  have m: "?B ! (i - 2) = (a ! i)[c := a ! i ! c + v ! (i - 2)]" if "2 \<le> i" "i < ?n - 2"
  proof -
    have "i - 2 < ?n - 4" using that by linarith
    then show ?thesis
      using sl_nth' [of 2 i a 2] that assms(1) by (simp add: sl_length)
  qed
  have c: "drop (?n - 2) a ! (i - (?n - 2)) = a ! i" if "\<not> i < ?n - 2"
    using that assms(3) by simp
  show ?thesis using e m c by auto
qed

lemma inj_col_shape:
  assumes "has_shape n m a" "4 \<le> n" "length fac = n - 4"
  shows "has_shape n m (inj_col a tgt src fac)"
proof -
  have lv: "length (map2 neg_mul (map (\<lambda>row. row ! src) (sl 2 2 a)) fac) = length a - 4"
    using assms by (simp add: sl_length has_shape_length)
  have "length (inj_col a tgt src fac ! i) = m" if "i < n" for i
    using add_col_sl_row [OF lv, of i tgt] assms(1,2) that has_shape_nth [OF assms(1) that]
    by (simp add: inj_col_def has_shape_length)
  then show ?thesis
    using add_col_sl_length [OF lv] assms(1)
    by (simp add: has_shape_iff_nth inj_col_def)
qed

lemma inj_col_nth:
  assumes "has_shape n m a" "4 \<le> n" "length fac = n - 4" "tgt < m" "i < n" "j < m"
  shows "inj_col a tgt src fac ! i ! j
         = (if j = tgt \<and> 2 \<le> i \<and> i < n - 2 then a ! i ! j + neg_mul (a ! i ! src) (fac ! (i - 2))
            else a ! i ! j)"
proof -
  have lv: "length (map2 neg_mul (map (\<lambda>row. row ! src) (sl 2 2 a)) fac) = length a - 4"
    using assms by (simp add: sl_length has_shape_length)
  have la: "length a = n" "length (a ! i) = m"
    using assms(1,5) by (simp_all add: has_shape_length has_shape_nth)
  have "sl 2 2 a ! (i - 2) = a ! i" if "2 \<le> i" "i < n - 2"
    using sl_nth' [of 2 i a 2] that la by simp
  then show ?thesis
    using add_col_sl_row [OF lv, of i tgt] assms(2-6) la
    by (auto simp: inj_col_def sl_length nth_list_update)
qed

lemma col_step:
  assumes "has_shape n m a" "0 < n" "py_index m kt = Some tgt" "py_index m ks = Some src"
    "length fac = n - 4"
  shows "bindE (get_col a ks) (\<lambda>nb. bindE (neg_times nb fac) (\<lambda>v. update_add_col a kt v))
         = Inr (inj_col a tgt src fac)"
  using assms shape1_eq [OF assms(1,2)]
  by (simp add: bindE_def get_col_def neg_times_def update_add_col_def
      has_shape_length sl_length inj_col_def)

lemma bindE_Inr: "bindE (Inr a) f = f a"
  by (simp add: bindE_def)

lemma bindE_Inl: "bindE (Inl e) f = Inl e"
  by (simp add: bindE_def)

lemma add_dirichlet_steps:
  assumes sh: "has_shape n m rhs" and n: "5 \<le> n" and m: "5 \<le> m"
    and le: "length (east bf) = m - 4" and lw: "length (west bf) = m - 4"
    and ln: "length (north bf) = n - 4" and ls: "length (south bf) = n - 4"
  shows "add_dirichlet st rt bf rhs = Inr (dirichlet_steps st rt bf n m rhs)"
    and "has_shape n m (dirichlet_steps st rt bf n m rhs)"
proof -
  define r1 where "r1 = (if \<not> enable_cyclic_x st \<and> fst (proc_idx rt) = fst (num_proc rt) - 1
                then inj_row rhs (n - 3) (n - 2) (east bf) else rhs)"
  define r2 where "r2 = (if \<not> enable_cyclic_x st \<and> fst (proc_idx rt) = 0
                then inj_row r1 2 1 (west bf) else r1)"
  define r3 where "r3 = (if snd (proc_idx rt) = snd (num_proc rt) - 1
                then inj_col r2 (m - 3) (m - 2) (north bf) else r2)"
  define r4 where "r4 = (if snd (proc_idx rt) = 0 then inj_col r3 2 1 (south bf) else r3)"
  have pn: "py_index n (- 3) = Some (n - 3)" "py_index n (- 2) = Some (n - 2)"
    "py_index n 2 = Some 2" "py_index n 1 = Some 1"
    using n py_index_neg [of 3 n] py_index_neg [of 2 n] py_index_pos [of 2 n] py_index_pos [of 1 n]
    by simp_all
  have pm: "py_index m (- 3) = Some (m - 3)" "py_index m (- 2) = Some (m - 2)"
    "py_index m 2 = Some 2" "py_index m 1 = Some 1"
    using m py_index_neg [of 3 m] py_index_neg [of 2 m] py_index_pos [of 2 m] py_index_pos [of 1 m]
    by simp_all
  have s1: "has_shape n m r1"
    using inj_row_shape [OF sh _ _ le, of "n - 3" "n - 2"] sh n by (simp add: r1_def)
  have s2: "has_shape n m r2"
    using inj_row_shape [OF s1 _ _ lw, of 2 1] s1 n by (simp add: r2_def)
  have s3: "has_shape n m r3"
    using inj_col_shape [OF s2 _ ln] s2 n by (simp add: r3_def)
  have s4: "has_shape n m r4"
    using inj_col_shape [OF s3 _ ls] s3 n by (simp add: r4_def)
  have e1: "bindE (get_row rhs (- 2)) (\<lambda>nb. bindE (neg_times nb (east bf))
              (\<lambda>v. update_add_row rhs (- 3) v)) = Inr (inj_row rhs (n - 3) (n - 2) (east bf))"
    using row_step [OF sh pn(1,2) _ _ le] n by simp
  have e2: "bindE (get_row r1 1) (\<lambda>nb. bindE (neg_times nb (west bf))
              (\<lambda>v. update_add_row r1 2 v)) = Inr (inj_row r1 2 1 (west bf))"
    using row_step [OF s1 pn(3,4) _ _ lw] n by simp
  have e3: "bindE (get_col r2 (- 2)) (\<lambda>nb. bindE (neg_times nb (north bf))
              (\<lambda>v. update_add_col r2 (- 3) v)) = Inr (inj_col r2 (m - 3) (m - 2) (north bf))"
    using col_step [OF s2 _ pm(1,2) ln] n by simp
  have e4: "bindE (get_col r3 1) (\<lambda>nb. bindE (neg_times nb (south bf))
              (\<lambda>v. update_add_col r3 2 v)) = Inr (inj_col r3 2 1 (south bf))"
    using col_step [OF s3 _ pm(3,4) ls] n by simp
  have a1: "(if fst (proc_idx rt) = fst (num_proc rt) - 1 then
               bindE (get_row rhs (- 2)) (\<lambda>nb.
                 bindE (neg_times nb (east bf)) (\<lambda>v. update_add_row rhs (- 3) v))
             else Inr rhs) = Inr r1" if "\<not> enable_cyclic_x st"
    unfolding e1 using that by (simp add: r1_def)
  have a2: "(if fst (proc_idx rt) = 0 then
                 bindE (get_row r1 1) (\<lambda>nb.
                   bindE (neg_times nb (west bf)) (\<lambda>v. update_add_row r1 2 v))
               else Inr r1) = Inr r2" if "\<not> enable_cyclic_x st"
    unfolding e2 using that by (simp add: r2_def)
  have a3: "(if snd (proc_idx rt) = snd (num_proc rt) - 1 then
               bindE (get_col r2 (- 2)) (\<lambda>nb.
                 bindE (neg_times nb (north bf)) (\<lambda>v. update_add_col r2 (- 3) v))
             else Inr r2) = Inr r3"
    unfolding e3 by (simp add: r3_def)
  have a4: "(if snd (proc_idx rt) = 0 then
                 bindE (get_col r3 1) (\<lambda>nb.
                   bindE (neg_times nb (south bf)) (\<lambda>v. update_add_col r3 2 v))
               else Inr r3) = Inr r4"
    unfolding e4 by (simp add: r4_def)
  have x: "(if \<not> enable_cyclic_x st then
          bindE
            (if fst (proc_idx rt) = fst (num_proc rt) - 1 then
               bindE (get_row rhs (- 2)) (\<lambda>nb.
                 bindE (neg_times nb (east bf)) (\<lambda>v. update_add_row rhs (- 3) v))
             else Inr rhs)
            (\<lambda>rhs.
               if fst (proc_idx rt) = 0 then
                 bindE (get_row rhs 1) (\<lambda>nb.
                   bindE (neg_times nb (west bf)) (\<lambda>v. update_add_row rhs 2 v))
               else Inr rhs)
        else Inr rhs) = Inr r2"
  proof (cases "enable_cyclic_x st")
    case True
    then show ?thesis by (simp add: r1_def r2_def)
  next
    case False
    show ?thesis
      unfolding a1 [OF False] bindE_Inr a2 [OF False] using False by simp
  qed
  have y: "bindE
            (if snd (proc_idx rt) = snd (num_proc rt) - 1 then
               bindE (get_col r2 (- 2)) (\<lambda>nb.
                 bindE (neg_times nb (north bf)) (\<lambda>v. update_add_col r2 (- 3) v))
             else Inr r2)
            (\<lambda>rhs.
               if snd (proc_idx rt) = 0 then
                 bindE (get_col rhs 1) (\<lambda>nb.
                   bindE (neg_times nb (south bf)) (\<lambda>v. update_add_col rhs 2 v))
               else Inr rhs) = Inr r4"
    unfolding a3 bindE_Inr a4 by simp
  have d: "dirichlet_steps st rt bf n m rhs = r4"
    by (simp add: dirichlet_steps_def Let_def r1_def r2_def r3_def r4_def)
  show "add_dirichlet st rt bf rhs = Inr (dirichlet_steps st rt bf n m rhs)"
    unfolding add_dirichlet_def x d bindE_Inr by (rule y)
  show "has_shape n m (dirichlet_steps st rt bf n m rhs)"
    using d s4 by simp
qed

lemma dirichlet_steps_nth:
  assumes sh: "has_shape n m rhs" and n: "5 \<le> n" and m: "5 \<le> m"
    and le: "length (east bf) = m - 4" and lw: "length (west bf) = m - 4"
    and ln: "length (north bf) = n - 4" and ls: "length (south bf) = n - 4"
    and i: "i < n" and j: "j < m"
  shows "dirichlet_steps st rt bf n m rhs ! i ! j
         = rhs ! i ! j
           - (if \<not> enable_cyclic_x st \<and> fst (proc_idx rt) = fst (num_proc rt) - 1
                 \<and> i = n - 3 \<and> 2 \<le> j \<and> j < m - 2
              then rhs ! (n - 2) ! j * east bf ! (j - 2) else 0)
           - (if \<not> enable_cyclic_x st \<and> fst (proc_idx rt) = 0 \<and> i = 2 \<and> 2 \<le> j \<and> j < m - 2
              then rhs ! 1 ! j * west bf ! (j - 2) else 0)
           - (if snd (proc_idx rt) = snd (num_proc rt) - 1 \<and> j = m - 3 \<and> 2 \<le> i \<and> i < n - 2
              then rhs ! i ! (m - 2) * north bf ! (i - 2) else 0)
           - (if snd (proc_idx rt) = 0 \<and> j = 2 \<and> 2 \<le> i \<and> i < n - 2
              then rhs ! i ! 1 * south bf ! (i - 2) else 0)"
proof -
  define cE where "cE \<longleftrightarrow> \<not> enable_cyclic_x st \<and> fst (proc_idx rt) = fst (num_proc rt) - 1"
  define cW where "cW \<longleftrightarrow> \<not> enable_cyclic_x st \<and> fst (proc_idx rt) = 0"
  define cN where "cN \<longleftrightarrow> snd (proc_idx rt) = snd (num_proc rt) - 1"
  define cS where "cS \<longleftrightarrow> snd (proc_idx rt) = 0"
  define r1 where "r1 = (if cE then inj_row rhs (n - 3) (n - 2) (east bf) else rhs)"
  define r2 where "r2 = (if cW then inj_row r1 2 1 (west bf) else r1)"
  define r3 where "r3 = (if cN then inj_col r2 (m - 3) (m - 2) (north bf) else r2)"
  define r4 where "r4 = (if cS then inj_col r3 2 1 (south bf) else r3)"
  have d: "dirichlet_steps st rt bf n m rhs = r4"
    by (simp add: dirichlet_steps_def Let_def r1_def r2_def r3_def r4_def cE_def cW_def cN_def cS_def)
  have m4: "4 \<le> m" and n4: "4 \<le> n" using n m by simp_all
  have s1: "has_shape n m r1"
    using inj_row_shape [OF sh _ _ le, of "n - 3" "n - 2"] sh n by (simp add: r1_def)
  have s2: "has_shape n m r2"
    using inj_row_shape [OF s1 _ _ lw, of 2 1] s1 n by (simp add: r2_def)
  have s3: "has_shape n m r3"
    using inj_col_shape [OF s2 _ ln] s2 n by (simp add: r3_def)
  have v1: "r1 ! k ! l = rhs ! k ! l
              - (if cE \<and> k = n - 3 \<and> 2 \<le> l \<and> l < m - 2
                 then rhs ! (n - 2) ! l * east bf ! (l - 2) else 0)"
    if "k < n" "l < m" for k l
    using inj_row_nth [OF sh _ _ le m4 that, of "n - 3" "n - 2"] n
    by (auto simp: r1_def neg_mul_def)
  have v2: "r2 ! k ! l = r1 ! k ! l
              - (if cW \<and> k = 2 \<and> 2 \<le> l \<and> l < m - 2
                 then r1 ! 1 ! l * west bf ! (l - 2) else 0)"
    if "k < n" "l < m" for k l
    using inj_row_nth [OF s1 _ _ lw m4 that, of 2 1] n
    by (auto simp: r2_def neg_mul_def)
  have v3: "r3 ! k ! l = r2 ! k ! l
              - (if cN \<and> l = m - 3 \<and> 2 \<le> k \<and> k < n - 2
                 then r2 ! k ! (m - 2) * north bf ! (k - 2) else 0)"
    if "k < n" "l < m" for k l
    using inj_col_nth [OF s2 n4 ln _ that, of "m - 3" "m - 2"] m
    by (auto simp: r3_def neg_mul_def)
  have v4: "r4 ! k ! l = r3 ! k ! l
              - (if cS \<and> l = 2 \<and> 2 \<le> k \<and> k < n - 2
                 then r3 ! k ! 1 * south bf ! (k - 2) else 0)"
    if "k < n" "l < m" for k l
    using inj_col_nth [OF s3 n4 ls _ that, of 2 1] m
    by (auto simp: r4_def neg_mul_def)
  have ne: "Suc 0 \<noteq> n - 3" "Suc 0 \<noteq> m - 3" "m - 2 \<noteq> m - 3" "1 < n" "m - 2 < m" "1 < m"
    using n m by linarith+
  have g1: "r1 ! 1 ! l = rhs ! 1 ! l" if "l < m" for l
    using v1 [of 1 l] that ne by simp
  have g2: "r2 ! k ! (m - 2) = rhs ! k ! (m - 2)" if "k < n" for k
    using v2 [of k "m - 2"] v1 [of k "m - 2"] that ne by simp
  have g3: "r3 ! k ! 1 = rhs ! k ! 1" if "k < n" for k
    using v3 [of k 1] v2 [of k 1] v1 [of k 1] that ne by simp
  show ?thesis
    unfolding d v4 [OF i j] v3 [OF i j] v2 [OF i j] v1 [OF i j] g1 [OF j] g2 [OF i] g3 [OF i]
    unfolding cE_def cW_def cN_def cS_def by (simp only: conj_assoc)
qed



section \<open>The call of the solver\<close>

lemma interior_shape:
  assumes "has_shape (kx + 4) (ky + 4) a"
  shows "has_shape kx ky (interior a)"
  using interior_row_length [OF assms] has_shape_length [OF assms]
  by (simp add: has_shape_iff_nth interior_length)

lemma interior_cell:
  assumes "has_shape (kx + 4) (ky + 4) a" "i < kx" "j < ky"
  shows "interior a ! i ! j = a ! (i + 2) ! (j + 2)"
  using interior_nth [OF assms(1), of i j] assms(2,3) by simp

lemma set_interior_row:
  assumes "length v = length a - 4" "4 \<le> length a" "i < length a"
  shows "set_interior a v ! i
         = (if 2 \<le> i \<and> i < length a - 2
            then take 2 (a ! i) @ v ! (i - 2) @ drop (2 + length (v ! (i - 2))) (a ! i)
            else a ! i)"
proof -
  let ?n = "length a"
  let ?B = "map2 (\<lambda>row vr. take 2 row @ vr @ drop (2 + length vr) row) (sl 2 2 a) v"
  have B: "length ?B = ?n - 4"
    using assms(1) by (simp add: sl_length)
  have "2 + (?n - 2 - 2) = ?n - 2" using assms(2) by linarith
  then have d: "drop (2 + length (sl 2 2 a)) a = drop (?n - 2) a"
    by (simp only: sl_length)
  have e: "set_interior a v ! i
         = (if i < 2 then take 2 a ! i
            else if i < ?n - 2 then ?B ! (i - 2)
            else drop (?n - 2) a ! (i - (?n - 2)))"
    unfolding set_interior_def d
    using three_parts_nth [OF _ B assms(2,3), of "take 2 a" "drop (?n - 2) a"] assms(2)
    by simp
  have m: "?B ! (i - 2)
           = take 2 (a ! i) @ v ! (i - 2) @ drop (2 + length (v ! (i - 2))) (a ! i)"
    if "2 \<le> i" "i < ?n - 2"
  proof -
    have "i - 2 < ?n - 4" using that by linarith
    then show ?thesis
      using sl_nth' [of 2 i a 2] that assms(1) by (simp add: sl_length)
  qed
  have c: "drop (?n - 2) a ! (i - (?n - 2)) = a ! i" if "\<not> i < ?n - 2"
    using that assms(3) by simp
  show ?thesis using e m c by auto
qed

lemma set_interior_length: "length v = length a - 4 \<Longrightarrow> length (set_interior a v) = length a"
  by (simp add: set_interior_def sl_length)

lemma set_row_nth:
  assumes "length row = m" "length vr = m - 4" "4 \<le> m" "j < m"
  shows "(take 2 row @ vr @ drop (2 + length vr) row) ! j
         = (if 2 \<le> j \<and> j < m - 2 then vr ! (j - 2) else row ! j)"
proof -
  have "2 + (m - 4) = m - 2" using assms(3) by linarith
  then have d: "drop (2 + length vr) row = drop (m - 2) row"
    using assms(2) by simp
  have c: "drop (m - 2) row ! (j - (m - 2)) = row ! j" if "\<not> j < m - 2"
    using that assms(1,4) by simp
  show ?thesis
    unfolding d
    using three_parts_nth [OF _ assms(2,3,4), of "take 2 row" "drop (m - 2) row"] assms(1,3) c
    by auto
qed

lemma set_interior_nth:
  assumes a: "has_shape (kx + 4) (ky + 4) a" and v: "has_shape kx ky v"
    and i: "i < kx + 4" and j: "j < ky + 4"
  shows "set_interior a v ! i ! j
         = (if 2 \<le> i \<and> i < kx + 2 \<and> 2 \<le> j \<and> j < ky + 2 then v ! (i - 2) ! (j - 2)
            else a ! i ! j)"
proof -
  have la: "length a = kx + 4" "length v = length a - 4" "4 \<le> length a" "i < length a"
    using a v i by (simp_all add: has_shape_length)
  note r = set_interior_row [OF la(2,3,4)]
  show ?thesis
  proof (cases "2 \<le> i \<and> i < kx + 2")
    case False
    then show ?thesis using r la(1) by auto
  next
    case True
    then have iv: "i - 2 < kx" by linarith
    have lr: "length (a ! i) = ky + 4" "length (v ! (i - 2)) = ky + 4 - 4"
      using has_shape_nth [OF a i] has_shape_nth [OF v iv] by simp_all
    have "set_interior a v ! i
          = take 2 (a ! i) @ v ! (i - 2) @ drop (2 + length (v ! (i - 2))) (a ! i)"
      using r True la(1) by simp
    then show ?thesis
      using set_row_nth [OF lr(1,2) _ j] True by simp
  qed
qed

lemma set_interior_shape:
  assumes a: "has_shape (kx + 4) (ky + 4) a" and v: "has_shape kx ky v"
  shows "has_shape (kx + 4) (ky + 4) (set_interior a v)"
proof -
  have la: "length a = kx + 4" "length v = length a - 4" "4 \<le> length a"
    using a v by (simp_all add: has_shape_length)
  have "length (set_interior a v ! i) = ky + 4" if i: "i < kx + 4" for i
  proof (cases "2 \<le> i \<and> i < kx + 2")
    case False
    then show ?thesis
      using set_interior_row [OF la(2,3), of i] i la(1) has_shape_nth [OF a i] by auto
  next
    case True
    then have iv: "i - 2 < kx" by linarith
    show ?thesis
      using set_interior_row [OF la(2,3), of i] i la(1) True
        has_shape_nth [OF a i] has_shape_nth [OF v iv]
      by simp
  qed
  then show ?thesis
    using set_interior_length [OF la(2)] la(1) by (simp add: has_shape_iff_nth)
qed

lemma update_interior_ok:
  assumes a: "has_shape (kx + 4) (ky + 4) a" and v: "has_shape kx ky v"
  shows "update_interior a v = Inr (set_interior a v)"
  using interior_shape [OF a] v by (simp add: update_interior_def has_shape_map_length)

lemma update_interior_bad:
  assumes a: "has_shape (kx + 4) (ky + 4) a" and v: "\<not> has_shape kx ky v"
  shows "update_interior a v = Inl ValueError"
  using interior_shape [OF a] v by (simp add: update_interior_def has_shape_map_length)

lemma solve_setup_eq:
  assumes "solve_inputs_ok enf slv st rt vs rhs x0 (boundary_val_of x0 bvo) kx ky"
  shows "solve_setup enf st vs rhs x0 bvo
         = Inr (enf x0 (enable_cyclic_x st), masked_rhs vs rhs (boundary_val_of x0 bvo))"
proof -
  have h: "has_shape (kx + 4) (ky + 4) (boundary_mask vs)" "has_shape (kx + 4) (ky + 4) rhs"
    "has_shape (kx + 4) (ky + 4) (boundary_val_of x0 bvo)"
    using assms by (simp_all add: solve_inputs_ok_def)
  have "solve_setup enf st vs rhs x0 bvo = solve_setup enf st vs rhs x0 (Some (boundary_val_of x0 bvo))"
    by (cases bvo) (simp_all add: boundary_val_of_def solve_setup_none)
  then show ?thesis
    using solve_setup_ok [OF h] by (simp add: masked_rhs_def)
qed

lemma masked_rhs_shape:
  assumes "solve_inputs_ok enf slv st rt vs rhs x0 bv kx ky"
  shows "has_shape (kx + 4) (ky + 4) (masked_rhs vs rhs bv)"
proof -
  have h: "has_shape (kx + 4) (ky + 4) (boundary_mask vs)" "has_shape (kx + 4) (ky + 4) rhs"
    "has_shape (kx + 4) (ky + 4) bv"
    using assms by (simp_all add: solve_inputs_ok_def)
  show ?thesis
    unfolding masked_rhs_def by (rule where2_shape [OF all_not_axis2_shape [OF h(1)] h(2,3)])
qed

lemma masked_rhs_cell:
  assumes "solve_inputs_ok enf slv st rt vs rhs x0 bv kx ky" "i < kx + 4" "j < ky + 4"
  shows "masked_rhs vs rhs bv ! i ! j = (if flagged vs i j then bv ! i ! j else rhs ! i ! j)"
proof -
  have h: "has_shape (kx + 4) (ky + 4) (boundary_mask vs)" "has_shape (kx + 4) (ky + 4) rhs"
    "has_shape (kx + 4) (ky + 4) bv"
    using assms(1) by (simp_all add: solve_inputs_ok_def)
  show ?thesis
    unfolding masked_rhs_def by (rule masked_rhs_nth [OF h assms(2,3)])
qed

lemma petsc_solver_eq:
  assumes ok: "solve_inputs_ok enf slv st rt vs rhs x0 bv kx ky"
  shows "petsc_solver engine slv (State st vs') rt lg (masked_rhs vs rhs bv)
           (enf x0 (enable_cyclic_x st))
         = (case engine (ksp slv) (krylov_rhs st rt slv vs rhs bv) (krylov_x0 enf st x0) of
              (sol, info, iterations) \<Rightarrow>
                Inr (sol,
                     if info < 0 then lg @ [(Warning, not_converged_message iterations info)]
                     else lg))"
proof -
  note m = masked_rhs_shape [OF ok]
  have k: "0 < kx" "0 < ky" "owned_shape (da slv) (proc_idx rt) = (kx, ky)"
    and r: "has_shape (kx + 4) (ky + 4) rhs"
    and x: "has_shape (kx + 4) (ky + 4) (enf x0 (enable_cyclic_x st))"
    and l: "length (east (boundary_fac slv)) = ky" "length (west (boundary_fac slv)) = ky"
      "length (north (boundary_fac slv)) = kx" "length (south (boundary_fac slv)) = kx"
    using ok by (simp_all add: solve_inputs_ok_def)
  have s01: "shape0 rhs = kx + 4" "shape1 rhs = ky + 4"
    using r shape1_eq [OF r] by (simp_all add: shape0_def has_shape_length)
  have g: "5 \<le> kx + 4" "5 \<le> ky + 4" using k by simp_all
  have l': "length (east (boundary_fac slv)) = ky + 4 - 4"
    "length (west (boundary_fac slv)) = ky + 4 - 4"
    "length (north (boundary_fac slv)) = kx + 4 - 4"
    "length (south (boundary_fac slv)) = kx + 4 - 4"
    using l by simp_all
  note ad = add_dirichlet_steps [OF m g l', of st rt]
  have i1: "has_shape kx ky (krylov_rhs st rt slv vs rhs bv)"
    unfolding krylov_rhs_def s01 by (rule interior_shape [OF ad(2)])
  have i2: "has_shape kx ky (krylov_x0 enf st x0)"
    unfolding krylov_x0_def by (rule interior_shape [OF x])
  show ?thesis
    unfolding petsc_solver_def state_settings.simps bindE_Inr ad(1) k(3)
    using i1 i2 by (simp add: krylov_rhs_def krylov_x0_def s01)
qed

lemma petsc_solver_variables:
  "petsc_solver engine slv (Variables vs) rt lg rhs x0 = Inl AttributeError"
  by (simp add: petsc_solver_def bindE_Inl)

lemma solve_raises:
  "solve engine enf slv st rt vs lg rhs x0 bvo
   = (case solve_setup enf st vs rhs x0 bvo of
        Inl e \<Rightarrow> Inl e
      | Inr p \<Rightarrow> Inl AttributeError)"
  by (simp add: solve_def bindE_def petsc_solver_variables split: sum.splits prod.splits)

lemma has_shape_eqI:
  assumes "has_shape n m a" "has_shape n m b" "\<And>i j. i < n \<Longrightarrow> j < m \<Longrightarrow> a ! i ! j = b ! i ! j"
  shows "a = b"
proof (rule nth_equalityI)
  show "length a = length b" using assms(1,2) by (simp add: has_shape_length)
next
  fix i assume "i < length a"
  then have i: "i < n" using assms(1) by (simp add: has_shape_length)
  show "a ! i = b ! i"
  proof (rule nth_equalityI)
    show "length (a ! i) = length (b ! i)"
      using has_shape_nth [OF assms(1) i] has_shape_nth [OF assms(2) i] by simp
  next
    fix j assume "j < length (a ! i)"
    then have "j < m" using has_shape_nth [OF assms(1) i] by simp
    then show "a ! i ! j = b ! i ! j" using assms(3) i by simp
  qed
qed

lemma interior_set_interior:
  assumes a: "has_shape (kx + 4) (ky + 4) a" and v: "has_shape kx ky v"
  shows "interior (set_interior a v) = v"
proof (rule has_shape_eqI [OF interior_shape [OF set_interior_shape [OF a v]] v])
  fix i j assume ij: "i < kx" "j < ky"
  show "interior (set_interior a v) ! i ! j = v ! i ! j"
    using interior_cell [OF set_interior_shape [OF a v] ij]
      set_interior_nth [OF a v, of "i + 2" "j + 2"] ij
    by simp
qed

lemma cf_shape:
  assumes "vars_shape_ok vs" "k < 5"
  shows "has_shape (nxl vs) (nyl vs) (cf vs ! k)"
proof -
  have "k = 0 \<or> k = 1 \<or> k = 2 \<or> k = 3 \<or> k = 4" using assms(2) by linarith
  then show ?thesis
    using assms(1)
    by (auto simp: cf_def has_shape_iff_nth main_diag_length main_diag_row_length
        east_diag_def west_diag_def north_diag_def south_diag_def
        masked_diag_length masked_diag_row_length)
qed

lemma flagged_cf:
  assumes "vars_shape_ok vs" "i < nxl vs" "j < nyl vs" "flagged vs (i + 2) (j + 2)"
  shows "cf vs ! 0 ! i ! j = 1" "cf vs ! 1 ! i ! j = 0" "cf vs ! 2 ! i ! j = 0"
    "cf vs ! 3 ! i ! j = 0" "cf vs ! 4 ! i ! j = 0"
proof -
  have f: "\<not> list_all Not (boundary_mask vs ! (i + 2) ! (j + 2))"
    using assms(4) by (simp add: flagged_def not_all_not_iff)
  show "cf vs ! 0 ! i ! j = 1"
    unfolding cf_0_nth [OF assms(1,2,3)] using f by (simp add: of_mask_def)
  show "cf vs ! 1 ! i ! j = 0" "cf vs ! 2 ! i ! j = 0" "cf vs ! 3 ! i ! j = 0"
    "cf vs ! 4 ! i ! j = 0"
    unfolding cf_nth [OF assms(1,2,3)] using f by (simp_all add: of_mask_def)
qed

lemma py_get2_ok:
  assumes "has_shape n m a" "0 \<le> k" "nat k < n" "0 \<le> l" "nat l < m"
  shows "py_get2 a k l = Some (a ! nat k ! nat l)"
proof -
  have "0 < n" using assms(3) by simp
  then have "shape1 a = m" using shape1_eq [OF assms(1)] by simp
  moreover have "k < int n" "l < int m" using assms(2-5) by linarith+
  ultimately show ?thesis
    using assms by (simp add: py_get2_def shape0_def has_shape_length py_index_def)
qed

lemma stencil_row_eq:
  assumes ok: "vars_shape_ok vs" and b: "0 < bx" "0 < by"
    and i: "nat (gi mod bx) < nxl vs" and j: "nat (gj mod by) < nyl vs"
  shows "stencil_row (cf vs) bx by gi gj
         = Some [\<lparr>mrow = (gi, gj), mcol = (gi, gj),
                   mval = cf vs ! 0 ! nat (gi mod bx) ! nat (gj mod by)\<rparr>,
                 \<lparr>mrow = (gi, gj), mcol = (gi + 1, gj),
                   mval = cf vs ! 1 ! nat (gi mod bx) ! nat (gj mod by)\<rparr>,
                 \<lparr>mrow = (gi, gj), mcol = (gi - 1, gj),
                   mval = cf vs ! 2 ! nat (gi mod bx) ! nat (gj mod by)\<rparr>,
                 \<lparr>mrow = (gi, gj), mcol = (gi, gj + 1),
                   mval = cf vs ! 3 ! nat (gi mod bx) ! nat (gj mod by)\<rparr>,
                 \<lparr>mrow = (gi, gj), mcol = (gi, gj - 1),
                   mval = cf vs ! 4 ! nat (gi mod bx) ! nat (gj mod by)\<rparr>]"
proof -
  have nn: "0 \<le> gi mod bx" "0 \<le> gj mod by" using b by simp_all
  have g: "py_get2 (cf vs ! k) (gi mod bx) (gj mod by)
           = Some (cf vs ! k ! nat (gi mod bx) ! nat (gj mod by))" if "k < 5" for k
    by (rule py_get2_ok [OF cf_shape [OF ok that] nn(1) i nn(2) j])
  have c: "cf vs = [cf vs ! 0, cf vs ! 1, cf vs ! 2, cf vs ! 3, cf vs ! 4]"
    by (simp add: cf_def)
  show ?thesis
    unfolding stencil_row_def Let_def ij_offsets_def
    apply (subst c)
    apply (simp add: g)
    done
qed

lemma init_facts:
  assumes "PETScSolver_init acc st rt vs = Inr slv"
  shows "vars_shape_ok vs" "0 < nxl vs" "0 < nyl vs"
    "boundary_fac slv = \<lparr>east = last (cf vs ! 1), west = hd (cf vs ! 2),
                          north = map last (cf vs ! 3), south = map hd (cf vs ! 4)\<rparr>"
  using assms
  by (auto simp: PETScSolver_init_def dmda_request_def assemble_poisson_matrix_def Let_def
      split: sum.splits if_splits option.splits prod.splits)

lemma those_map_elem:
  assumes "those (map f xs) = Some ys"
  shows "e \<in> set ys \<longleftrightarrow> (\<exists>x\<in>set xs. f x = Some e)"
  using assms
proof (induction xs arbitrary: ys)
  case Nil
  then show ?case by simp
next
  case (Cons x xs)
  then obtain r rs where r: "f x = Some r" "those (map f xs) = Some rs" "ys = r # rs"
    by (auto split: option.splits)
  show ?case
    using Cons.IH [OF r(2)] r(1,3) by auto
qed

lemma those_map_defined:
  assumes "those (map f xs) = Some ys" "x \<in> set xs"
  shows "f x \<noteq> None"
  using assms
proof (induction xs arbitrary: ys)
  case Nil
  then show ?case by simp
next
  case (Cons a xs)
  then obtain r rs where r: "f a = Some r" "those (map f xs) = Some rs"
    by (auto split: option.splits)
  show ?case
    using Cons.IH [OF r(2)] r(1) Cons.prems(2) by auto
qed

lemma those_map_mem:
  assumes "those (map f xs) = Some ys"
  shows "e \<in> set (concat ys) \<longleftrightarrow> (\<exists>x\<in>set xs. \<exists>r. f x = Some r \<and> e \<in> set r)"
proof
  assume "e \<in> set (concat ys)"
  then obtain r where "r \<in> set ys" "e \<in> set r" by auto
  then show "\<exists>x\<in>set xs. \<exists>r. f x = Some r \<and> e \<in> set r"
    using those_map_elem [OF assms, of r] by blast
next
  assume "\<exists>x\<in>set xs. \<exists>r. f x = Some r \<and> e \<in> set r"
  then obtain x r where "x \<in> set xs" "f x = Some r" "e \<in> set r" by blast
  then have "r \<in> set ys" using those_map_elem [OF assms, of r] by blast
  then show "e \<in> set (concat ys)" using \<open>e \<in> set r\<close> by auto
qed

lemma stencil_row_mrow:
  assumes "stencil_row c bx by i j = Some r" "e \<in> set r"
  shows "mrow e = (i, j)"
  using those_map_elem [OF assms(1) [unfolded stencil_row_def Let_def], of e] assms(2)
  by (auto split: prod.splits)

lemma stencil_entries_mem:
  assumes "stencil_entries c bx by ((i0, i1), (j0, j1)) = Some es"
  shows "e \<in> set es \<longleftrightarrow>
           (\<exists>i j r. i0 \<le> i \<and> i < i1 \<and> j0 \<le> j \<and> j < j1 \<and>
                    stencil_row c bx by i j = Some r \<and> e \<in> set r)"
proof -
  let ?g = "\<lambda>j i. stencil_row c bx by i j"
  let ?f = "\<lambda>j. map_option concat (those (map (?g j) [i0..i1 - 1]))"
  obtain yss where y: "those (map ?f [j0..j1 - 1]) = Some yss" "es = concat yss"
    using assms by (auto simp: stencil_entries_def)
  have f: "(\<exists>r. ?f j = Some r \<and> e \<in> set r)
           \<longleftrightarrow> (\<exists>i r. i0 \<le> i \<and> i < i1 \<and> ?g j i = Some r \<and> e \<in> set r)"
    if "?f j \<noteq> None" for j
  proof -
    have "those (map (?g j) [i0..i1 - 1]) \<noteq> None"
      using that by (cases "those (map (?g j) [i0..i1 - 1])") simp_all
    then obtain zs where zs: "those (map (?g j) [i0..i1 - 1]) = Some zs"
      by blast
    have s: "set [i0..i1 - 1] = {i. i0 \<le> i \<and> i < i1}" by auto
    have "(\<exists>r. ?f j = Some r \<and> e \<in> set r) \<longleftrightarrow> e \<in> set (concat zs)"
      using zs by simp
    then show ?thesis
      unfolding those_map_mem [OF zs] s by blast
  qed
  have n: "?f j \<noteq> None" if "j0 \<le> j" "j < j1" for j
    using those_map_defined [OF y(1), of j] that by simp
  have s: "set [j0..j1 - 1] = {j. j0 \<le> j \<and> j < j1}" by auto
  have "e \<in> set es \<longleftrightarrow> (\<exists>j. j0 \<le> j \<and> j < j1 \<and> (\<exists>r. ?f j = Some r \<and> e \<in> set r))"
    unfolding y(2) those_map_mem [OF y(1)] s by blast
  also have "\<dots> \<longleftrightarrow> (\<exists>j. j0 \<le> j \<and> j < j1 \<and>
                 (\<exists>i r. i0 \<le> i \<and> i < i1 \<and> ?g j i = Some r \<and> e \<in> set r))"
    using f n by blast
  finally show ?thesis by blast
qed

lemma init_matrix:
  assumes "PETScSolver_init acc st rt vs = Inr slv"
  shows "stencil_entries (cf vs) (nx st div fst (num_proc rt)) (ny st div snd (num_proc rt))
           (getRanges (da slv) (proc_idx rt)) = Some (matrix slv)"
  using assms
  by (auto simp: PETScSolver_init_def dmda_request_def assemble_poisson_matrix_def Let_def
      split: sum.splits if_splits option.splits prod.splits)

lemma local_sizes:
  assumes "vars_shape_ok vs" "has_shape (kx + 4) (ky + 4) (boundary_mask vs)"
  shows "nxl vs = kx" "nyl vs = ky"
proof -
  note sh = vars_shape_ok_mask [OF assms(1)]
  have a: "shape0 (hvr vs) = kx + 4"
    using has_shape_length [OF sh] has_shape_length [OF assms(2)] by simp
  have "length (boundary_mask vs ! 0) = shape1 (hvr vs)"
    using has_shape_nth [OF sh, of 0] a by simp
  moreover have "length (boundary_mask vs ! 0) = ky + 4"
    using has_shape_nth [OF assms(2), of 0] by simp
  ultimately show "nxl vs = kx" "nyl vs = ky"
    using a by (simp_all add: nxl_def nyl_def)
qed

lemma boundary_fac_nth:
  assumes init: "PETScSolver_init acc st rt vs = Inr slv"
  shows "l < nyl vs \<Longrightarrow> east (boundary_fac slv) ! l = cf vs ! 1 ! (nxl vs - 1) ! l"
    and "l < nyl vs \<Longrightarrow> west (boundary_fac slv) ! l = cf vs ! 2 ! 0 ! l"
    and "k < nxl vs \<Longrightarrow> north (boundary_fac slv) ! k = cf vs ! 3 ! k ! (nyl vs - 1)"
    and "k < nxl vs \<Longrightarrow> south (boundary_fac slv) ! k = cf vs ! 4 ! k ! 0"
proof -
  note f = init_facts [OF init]
  have s: "has_shape (nxl vs) (nyl vs) (cf vs ! 1)" "has_shape (nxl vs) (nyl vs) (cf vs ! 2)"
    "has_shape (nxl vs) (nyl vs) (cf vs ! 3)" "has_shape (nxl vs) (nyl vs) (cf vs ! 4)"
    using cf_shape [OF f(1)] by simp_all
  have ne: "cf vs ! 1 \<noteq> []" "cf vs ! 2 \<noteq> []"
    using has_shape_length [OF s(1)] has_shape_length [OF s(2)] f(2) by auto
  show "east (boundary_fac slv) ! l = cf vs ! 1 ! (nxl vs - 1) ! l"
    using f(4) ne(1) has_shape_length [OF s(1)] by (simp add: last_conv_nth)
  show "west (boundary_fac slv) ! l = cf vs ! 2 ! 0 ! l"
    using f(4) ne(2) by (simp add: hd_conv_nth)
  show "north (boundary_fac slv) ! k = cf vs ! 3 ! k ! (nyl vs - 1)" if "k < nxl vs"
  proof -
    have "length (cf vs ! 3 ! k) = nyl vs" using has_shape_nth [OF s(3) that] .
    then have "cf vs ! 3 ! k \<noteq> []" using f(3) by auto
    then show ?thesis
      using f(4) that has_shape_length [OF s(3)] \<open>length (cf vs ! 3 ! k) = nyl vs\<close>
      by (simp add: last_conv_nth)
  qed
  show "south (boundary_fac slv) ! k = cf vs ! 4 ! k ! 0" if "k < nxl vs"
  proof -
    have "length (cf vs ! 4 ! k) = nyl vs" using has_shape_nth [OF s(4) that] .
    then have "cf vs ! 4 ! k \<noteq> []" using f(3) by auto
    then show ?thesis
      using f(4) that has_shape_length [OF s(4)] by (simp add: hd_conv_nth)
  qed
qed

lemma if_zero4:
  "(c \<Longrightarrow> y = 0) \<Longrightarrow> (if a1 \<and> a2 \<and> c \<and> b then x * y else 0) = (0::real)"
  by auto

lemma if_zero3:
  "(c \<Longrightarrow> y = 0) \<Longrightarrow> (if a \<and> c \<and> b then x * y else 0) = (0::real)"
  by auto

lemma krylov_rhs_flagged:
  assumes init: "PETScSolver_init acc st rt vs = Inr slv"
    and ok: "solve_inputs_ok enf slv st rt vs rhs x0 bv kx ky"
    and ij: "i < kx" "j < ky" and fl: "flagged vs (i + 2) (j + 2)"
  shows "krylov_rhs st rt slv vs rhs bv ! i ! j = bv ! (i + 2) ! (j + 2)"
proof -
  note f = init_facts [OF init]
  note m = masked_rhs_shape [OF ok]
  have k: "0 < kx" "0 < ky"
    and r: "has_shape (kx + 4) (ky + 4) rhs"
    and bm: "has_shape (kx + 4) (ky + 4) (boundary_mask vs)"
    and l: "length (east (boundary_fac slv)) = ky" "length (west (boundary_fac slv)) = ky"
      "length (north (boundary_fac slv)) = kx" "length (south (boundary_fac slv)) = kx"
    using ok by (simp_all add: solve_inputs_ok_def)
  note ls = local_sizes [OF f(1) bm]
  have s01: "shape0 rhs = kx + 4" "shape1 rhs = ky + 4"
    using r shape1_eq [OF r] by (simp_all add: shape0_def has_shape_length)
  have g: "5 \<le> kx + 4" "5 \<le> ky + 4" using k by simp_all
  have l': "length (east (boundary_fac slv)) = ky + 4 - 4"
    "length (west (boundary_fac slv)) = ky + 4 - 4"
    "length (north (boundary_fac slv)) = kx + 4 - 4"
    "length (south (boundary_fac slv)) = kx + 4 - 4"
    using l by simp_all
  note ad = add_dirichlet_steps [OF m g l', of st rt]
  have i2: "i + 2 < kx + 4" "j + 2 < ky + 4" using ij by simp_all
  have e: "east (boundary_fac slv) ! (j + 2 - 2) = 0" if "i + 2 = kx + 4 - 3"
  proof -
    have "i = nxl vs - 1" using that ls by simp
    then show ?thesis
      using boundary_fac_nth(1) [OF init, of j] flagged_cf(2) [OF f(1), of i j] ij fl ls by simp
  qed
  have w: "west (boundary_fac slv) ! (j + 2 - 2) = 0" if "i + 2 = 2"
  proof -
    have "i = 0" using that by simp
    then show ?thesis
      using boundary_fac_nth(2) [OF init, of j] flagged_cf(3) [OF f(1), of i j] ij fl ls by simp
  qed
  have n: "north (boundary_fac slv) ! (i + 2 - 2) = 0" if "j + 2 = ky + 4 - 3"
  proof -
    have "j = nyl vs - 1" using that ls by simp
    then show ?thesis
      using boundary_fac_nth(3) [OF init, of i] flagged_cf(4) [OF f(1), of i j] ij fl ls by simp
  qed
  have s: "south (boundary_fac slv) ! (i + 2 - 2) = 0" if "j + 2 = 2"
  proof -
    have "j = 0" using that by simp
    then show ?thesis
      using boundary_fac_nth(4) [OF init, of i] flagged_cf(5) [OF f(1), of i j] ij fl ls by simp
  qed
  have "krylov_rhs st rt slv vs rhs bv ! i ! j
        = dirichlet_steps st rt (boundary_fac slv) (kx + 4) (ky + 4) (masked_rhs vs rhs bv)
            ! (i + 2) ! (j + 2)"
    unfolding krylov_rhs_def s01 by (rule interior_cell [OF ad(2) ij])
  also have "\<dots> = masked_rhs vs rhs bv ! (i + 2) ! (j + 2)"
    unfolding dirichlet_steps_nth [OF m g l' i2]
    by (simp only: if_zero4 [OF e] if_zero4 [OF w] if_zero3 [OF n] if_zero3 [OF s] diff_zero)
  also have "\<dots> = bv ! (i + 2) ! (j + 2)"
    using masked_rhs_cell [OF ok i2] fl by simp
  finally show ?thesis .
qed

lemma those_map_the:
  assumes "those (map f xs) = Some ys"
  shows "ys = map (\<lambda>x. the (f x)) xs"
  using assms
proof (induction xs arbitrary: ys)
  case Nil
  then show ?case by simp
next
  case (Cons x xs)
  then obtain r rs where r: "f x = Some r" "those (map f xs) = Some rs" "ys = r # rs"
    by (auto split: option.splits)
  show ?case using Cons.IH [OF r(2)] r(1,3) by simp
qed

lemma concat_map_single:
  assumes "distinct xs" "a \<in> set xs" "\<And>x. x \<in> set xs \<Longrightarrow> x \<noteq> a \<Longrightarrow> h x = []"
  shows "concat (map h xs) = h a"
  using assms
proof (induction xs)
  case Nil
  then show ?case by simp
next
  case (Cons x xs)
  show ?case
  proof (cases "x = a")
    case True
    then have "a \<notin> set xs" using Cons.prems(1) by simp
    then have "\<And>y. y \<in> set xs \<Longrightarrow> h y = []" using Cons.prems(3) by auto
    then have "concat (map h xs) = []" by simp
    then show ?thesis using True by simp
  next
    case False
    then have "a \<in> set xs" using Cons.prems(2) by simp
    moreover have "distinct xs" using Cons.prems(1) by simp
    ultimately have "concat (map h xs) = h a" using Cons.IH Cons.prems(3) by simp
    moreover have "h x = []" using Cons.prems(3) [of x] False by simp
    ultimately show ?thesis by simp
  qed
qed

lemma concat_map_none:
  assumes "\<And>x. x \<in> set xs \<Longrightarrow> h x = []"
  shows "concat (map h xs) = []"
  using assms by simp

lemma filter_stencil_row:
  assumes "stencil_row c bx by i j = Some r"
  shows "filter (\<lambda>e. mrow e = (gi, gj)) r = (if (i, j) = (gi, gj) then r else [])"
proof -
  have "\<forall>e\<in>set r. mrow e = (i, j)" using stencil_row_mrow [OF assms] by blast
  then show ?thesis by (auto simp: filter_empty_conv)
qed

lemma stencil_entries_filter:
  assumes es: "stencil_entries c bx by ((i0, i1), (j0, j1)) = Some es"
    and own: "i0 \<le> gi" "gi < i1" "j0 \<le> gj" "gj < j1"
    and row: "stencil_row c bx by gi gj = Some r"
  shows "filter (\<lambda>e. mrow e = (gi, gj)) es = r"
proof -
  let ?P = "\<lambda>e. mrow e = (gi, gj)"
  let ?g = "\<lambda>j i. stencil_row c bx by i j"
  let ?f = "\<lambda>j. map_option concat (those (map (?g j) [i0..i1 - 1]))"
  obtain yss where y: "those (map ?f [j0..j1 - 1]) = Some yss" "es = concat yss"
    using es by (auto simp: stencil_entries_def)
  have yss: "yss = map (\<lambda>j. the (?f j)) [j0..j1 - 1]" by (rule those_map_the [OF y(1)])
  have gi: "gi \<in> set [i0..i1 - 1]" and gj: "gj \<in> set [j0..j1 - 1]" using own by simp_all
  have inner: "filter ?P (the (?f j)) = (if j = gj then r else [])"
    if j: "j \<in> set [j0..j1 - 1]" for j
  proof -
    have "?f j \<noteq> None" by (rule those_map_defined [OF y(1) j])
    then obtain zs where zs: "those (map (?g j) [i0..i1 - 1]) = Some zs"
      by (cases "those (map (?g j) [i0..i1 - 1])") simp_all
    have zs': "zs = map (\<lambda>i. the (?g j i)) [i0..i1 - 1]" by (rule those_map_the [OF zs])
    have cell: "filter ?P (the (?g j i)) = (if (i, j) = (gi, gj) then the (?g j i) else [])"
      if i: "i \<in> set [i0..i1 - 1]" for i
    proof -
      have "?g j i \<noteq> None" by (rule those_map_defined [OF zs i])
      then obtain q where q: "?g j i = Some q" by blast
      show ?thesis using filter_stencil_row [OF q, of gi gj] q by auto
    qed
    have "filter ?P (the (?f j)) = concat (map (\<lambda>i. filter ?P (the (?g j i))) [i0..i1 - 1])"
      using zs zs' by (simp add: filter_concat comp_def)
    also have "\<dots> = (if j = gj then r else [])"
    proof (cases "j = gj")
      case True
      have "concat (map (\<lambda>i. filter ?P (the (?g j i))) [i0..i1 - 1])
            = filter ?P (the (?g j gi))"
      proof (rule concat_map_single [OF _ gi])
        show "distinct [i0..i1 - 1]" by simp
      next
        fix x assume "x \<in> set [i0..i1 - 1]" "x \<noteq> gi"
        then show "filter ?P (the (?g j x)) = []" using cell [of x] by simp
      qed
      also have "\<dots> = r" using cell [OF gi] True row by simp
      finally show ?thesis using True by simp
    next
      case False
      have "concat (map (\<lambda>i. filter ?P (the (?g j i))) [i0..i1 - 1]) = []"
      proof (rule concat_map_none)
        fix x assume "x \<in> set [i0..i1 - 1]"
        then show "filter ?P (the (?g j x)) = []" using cell [of x] False by simp
      qed
      then show ?thesis using False by simp
    qed
    finally show ?thesis .
  qed
  have "filter ?P es = concat (map (\<lambda>j. filter ?P (the (?f j))) [j0..j1 - 1])"
    unfolding y(2) yss by (simp add: filter_concat comp_def)
  also have "\<dots> = filter ?P (the (?f gj))"
  proof (rule concat_map_single [OF _ gj])
    show "distinct [j0..j1 - 1]" by simp
  next
    fix x assume "x \<in> set [j0..j1 - 1]" "x \<noteq> gj"
    then show "filter ?P (the (?f x)) = []" using inner [of x] by simp
  qed
  also have "\<dots> = r" using inner [OF gj] by simp
  finally show ?thesis .
qed

text \<open>
  Claim C5.  Lines 74 to 80 are written as the claim says: given the state, and the
  right-hand side and initial guess that \<open>solve\<close> has prepared, \<open>_petsc_solver\<close> returns the
  iterate of an iteration that reports a negative reason and logs one warning, whose text
  holds the iteration number and the reason.  \<open>solve\<close> does not reach these lines: line 100
  passes the variables as the \<open>state\<close>, line 53 reads \<open>settings\<close> from them, and the call ends
  in AttributeError before the iteration is run.
\<close>

theorem nonconvergence_warns_but_solve_raises:
  assumes "solve_inputs_ok enf slv st rt vs rhs x0 (boundary_val_of x0 bvo) kx ky"
    and "engine (ksp slv) (krylov_rhs st rt slv vs rhs (boundary_val_of x0 bvo))
           (krylov_x0 enf st x0) = (sol, info, iterations)"
    and "info < 0"
  shows "solve_setup enf st vs rhs x0 bvo
           = Inr (enf x0 (enable_cyclic_x st), masked_rhs vs rhs (boundary_val_of x0 bvo))
         \<and> petsc_solver engine slv (State st vs) rt lg
               (masked_rhs vs rhs (boundary_val_of x0 bvo)) (enf x0 (enable_cyclic_x st))
             = Inr (sol, lg @ [(Warning,
                      ''Streamfunction solver did not converge after '' @ str_int iterations
                        @ '' iterations (error code: '' @ str_int info @ '')'')])
         \<and> petsc_solver engine slv (Variables vs) rt lg
               (masked_rhs vs rhs (boundary_val_of x0 bvo)) (enf x0 (enable_cyclic_x st))
             = Inl AttributeError
         \<and> solve engine enf slv st rt vs lg rhs x0 bvo = Inl AttributeError"
proof -
  note s = solve_setup_eq [OF assms(1)]
  have p: "petsc_solver engine slv (State st vs) rt lg
               (masked_rhs vs rhs (boundary_val_of x0 bvo)) (enf x0 (enable_cyclic_x st))
             = Inr (sol, lg @ [(Warning, not_converged_message iterations info)])"
    unfolding petsc_solver_eq [OF assms(1)] assms(2) using assms(3) by simp
  have r: "solve engine enf slv st rt vs lg rhs x0 bvo = Inl AttributeError"
    unfolding solve_raises s by simp
  show ?thesis
    using s p r by (simp add: not_converged_message_def petsc_solver_variables)
qed

theorem nonconvergence_warns_but_solve_raises_witness:
  "solve_inputs_ok enforce_boundaries (box_solver [False]) wall_settings single_process
     (box_vars 6 6 [False]) (const2 6 6 1) (ramp 6 6) (boundary_val_of (ramp 6 6) None) 2 2 \<and>
   petsc_solver stalled_engine (box_solver [False])
       (State wall_settings (box_vars 6 6 [False])) single_process []
       (masked_rhs (box_vars 6 6 [False]) (const2 6 6 1) (boundary_val_of (ramp 6 6) None))
       (enforce_boundaries (ramp 6 6) (enable_cyclic_x wall_settings))
     = Inr ([[22, 23], [32, 33]],
            [(Warning,
              ''Streamfunction solver did not converge after 0 iterations (error code: -3)'')]) \<and>
   solve stalled_engine enforce_boundaries (box_solver [False]) wall_settings
       single_process (box_vars 6 6 [False]) [] (const2 6 6 1) (ramp 6 6) None
     = Inl AttributeError"
proof -
  have h: "solve_inputs_ok enforce_boundaries (box_solver [False]) wall_settings single_process
     (box_vars 6 6 [False]) (const2 6 6 1) (ramp 6 6) (boundary_val_of (ramp 6 6) None) 2 2"
    by code_simp
  have e: "stalled_engine (ksp (box_solver [False]))
             (krylov_rhs wall_settings single_process (box_solver [False]) (box_vars 6 6 [False])
                (const2 6 6 1) (boundary_val_of (ramp 6 6) None))
             (krylov_x0 enforce_boundaries wall_settings (ramp 6 6))
           = ([[22, 23], [32, 33]], - 3, 0)"
    by code_simp
  have s: "(- 3 :: int) < 0" "str_int 0 = ''0''" "str_int (- 3) = ''-3''"
    by code_simp+
  show ?thesis
    using nonconvergence_warns_but_solve_raises
        [where engine = stalled_engine and enf = enforce_boundaries and bvo = None
           and lg = "[]", OF h e s(1)]
      h s(2,3)
    by simp
qed

text \<open>
  Claim C8, as the code has it.  The gather of line 102 works on the right-hand side that
  the masking of line 98 has left and on a linear solution of the shape of the owned range.
  Its result has the shape of the right-hand side passed in.  Every cell of the interior
  slice \<open>[2:-2, 2:-2]\<close>, flagged or not, holds the value of the linear solution; every cell of
  the two-cell padding holds the value of the masked right-hand side, that is \<open>boundary_val\<close>
  on flagged cells and the caller's value elsewhere.
\<close>

theorem gather_overwrites_interior:
  assumes "has_shape (kx + 4) (ky + 4) (boundary_mask vs)"
    and "has_shape (kx + 4) (ky + 4) rhs"
    and "has_shape (kx + 4) (ky + 4) (boundary_val_of x0 bvo)"
    and "has_shape kx ky sol" and "i < kx + 4" and "j < ky + 4"
  shows "\<exists>x r0 r. solve_setup enf st vs rhs x0 bvo = Inr (x, r0)
            \<and> update_interior r0 sol = Inr r
            \<and> map length r = map length rhs
            \<and> r0 ! i ! j
              = (if flagged vs i j then boundary_val_of x0 bvo ! i ! j else rhs ! i ! j)
            \<and> r ! i ! j
              = (if 2 \<le> i \<and> i < kx + 2 \<and> 2 \<le> j \<and> j < ky + 2 then sol ! (i - 2) ! (j - 2)
                 else r0 ! i ! j)"
proof -
  let ?bv = "boundary_val_of x0 bvo"
  let ?r0 = "where2 (all_not_axis2 (boundary_mask vs)) rhs ?bv"
  have m: "has_shape (kx + 4) (ky + 4) ?r0"
    by (rule where2_shape [OF all_not_axis2_shape [OF assms(1)] assms(2,3)])
  have "solve_setup enf st vs rhs x0 bvo = solve_setup enf st vs rhs x0 (Some ?bv)"
    by (cases bvo) (simp_all add: boundary_val_of_def solve_setup_none)
  then have s: "solve_setup enf st vs rhs x0 bvo = Inr (enf x0 (enable_cyclic_x st), ?r0)"
    using solve_setup_ok [OF assms(1,2,3)] by simp
  have u: "update_interior ?r0 sol = Inr (set_interior ?r0 sol)"
    by (rule update_interior_ok [OF m assms(4)])
  have l: "map length (set_interior ?r0 sol) = map length rhs"
    using set_interior_shape [OF m assms(4)] assms(2) by (simp add: has_shape_map_length)
  have c: "?r0 ! i ! j = (if flagged vs i j then ?bv ! i ! j else rhs ! i ! j)"
    by (rule masked_rhs_nth [OF assms(1,2,3,5,6)])
  have g: "set_interior ?r0 sol ! i ! j
           = (if 2 \<le> i \<and> i < kx + 2 \<and> 2 \<le> j \<and> j < ky + 2 then sol ! (i - 2) ! (j - 2)
              else ?r0 ! i ! j)"
    using set_interior_nth [OF m assms(4,5,6)] by simp
  show ?thesis using s u l c g by blast
qed

theorem gather_overwrites_interior_witness:
  "has_shape (2 + 4) (2 + 4) (boundary_mask (box_vars 6 6 [True, False])) \<and>
   flagged (box_vars 6 6 [True, False]) 1 3 \<and>
   (\<exists>x r0 r. solve_setup enforce_boundaries wall_settings (box_vars 6 6 [True, False])
                 (ramp 6 6) (const2 6 6 0) (Some (const2 6 6 7)) = Inr (x, r0)
          \<and> update_interior r0 [[0, 0], [0, 0]] = Inr r
          \<and> map length r = map length (ramp 6 6) \<and> r0 ! 1 ! 3 = 7 \<and> r ! 1 ! 3 = 7)"
proof -
  have h: "has_shape (2 + 4) (2 + 4) (boundary_mask (box_vars 6 6 [True, False]))"
    "has_shape (2 + 4) (2 + 4) (ramp 6 6)"
    "has_shape (2 + 4) (2 + 4) (boundary_val_of (const2 6 6 0) (Some (const2 6 6 7)))"
    "has_shape 2 2 [[0, 0], [0, 0 :: real]]" "(1::nat) < 2 + 4" "(3::nat) < 2 + 4"
    by code_simp+
  have s: "flagged (box_vars 6 6 [True, False]) 1 3"
    "boundary_val_of (const2 6 6 0) (Some (const2 6 6 7)) ! 1 ! 3 = 7"
    by code_simp+
  show ?thesis
    using gather_overwrites_interior
        [where enf = enforce_boundaries and st = wall_settings, OF h]
      h(1) s
    by auto
qed

text \<open>
  A flagged cell of the interior holds 7 after the masking step.  The linear solution that
  \<open>_petsc_solver\<close> returns, given the state and an iteration that stops before its first
  step, holds 0 for that cell, and the gather puts 0 there.  The call of \<open>solve\<close> on these
  arguments ends in the AttributeError of line 53 and returns no array.
\<close>

theorem masked_interior_cell_counterexample:
  "flagged (box_vars 6 6 [True, False]) 2 3 \<and>
   (case solve_setup enforce_boundaries wall_settings (box_vars 6 6 [True, False])
           (ramp 6 6) (const2 6 6 0) (Some (const2 6 6 7)) of
      Inl e \<Rightarrow> None
    | Inr (x, r0) \<Rightarrow>
        (case petsc_solver stalled_engine (box_solver [True, False])
                (State wall_settings (box_vars 6 6 [True, False])) single_process [] r0 x of
           Inl e \<Rightarrow> None
         | Inr (sol, l) \<Rightarrow>
             (case update_interior r0 sol of
                Inl e \<Rightarrow> None
              | Inr r \<Rightarrow> Some (r0 ! 2 ! 3, sol ! 0 ! 1, r ! 2 ! 3))))
   = Some (7, 0, 0) \<and>
   solve stalled_engine enforce_boundaries (box_solver [True, False]) wall_settings
       single_process (box_vars 6 6 [True, False]) [] (ramp 6 6) (const2 6 6 0)
       (Some (const2 6 6 7))
     = Inl AttributeError"
  by code_simp

text \<open>
  Claim C2, as the code has it.  For an owned cell that carries a boundary flag (in particular
  one flagged in all entries), the loop writes the identity row, and the entries of the
  assembled matrix in the row of that cell are exactly those of the identity row.  The
  right-hand side handed to the iteration holds \<open>boundary_val\<close> at that cell.  The value at
  the cell after the gather of line 102 is the one the iteration returned for it.
\<close>

theorem flagged_cell_identity_row:
  assumes "PETScSolver_init acc st rt vs = Inr slv" and "metrics_nonzero vs"
    and "solve_inputs_ok enf slv st rt vs rhs x0 (boundary_val_of x0 bvo) kx ky"
    and "getRanges (da slv) (proc_idx rt) = ((i0, i1), (j0, j1))"
    and "i0 \<le> gi" and "gi < i1" and "j0 \<le> gj" and "gj < j1"
    and "0 < nx st div fst (num_proc rt)" and "0 < ny st div snd (num_proc rt)"
    and "nat (gi mod (nx st div fst (num_proc rt))) = i"
    and "nat (gj mod (ny st div snd (num_proc rt))) = j"
    and "i < kx" and "j < ky" and "flagged vs (i + 2) (j + 2)"
    and "engine (ksp slv) (krylov_rhs st rt slv vs rhs (boundary_val_of x0 bvo))
           (krylov_x0 enf st x0) = (sol, info, iterations)"
    and "has_shape kx ky sol"
  shows "stencil_row (cf vs) (nx st div fst (num_proc rt)) (ny st div snd (num_proc rt)) gi gj
           = Some (identity_row gi gj)
         \<and> filter (\<lambda>e. mrow e = (gi, gj)) (matrix slv) = identity_row gi gj
         \<and> krylov_rhs st rt slv vs rhs (boundary_val_of x0 bvo) ! i ! j
           = boundary_val_of x0 bvo ! (i + 2) ! (j + 2)
         \<and> (\<exists>l r. petsc_solver engine slv (State st vs) rt lg
                       (masked_rhs vs rhs (boundary_val_of x0 bvo))
                       (enf x0 (enable_cyclic_x st)) = Inr (sol, l)
                   \<and> update_interior (masked_rhs vs rhs (boundary_val_of x0 bvo)) sol = Inr r
                   \<and> r ! (i + 2) ! (j + 2) = sol ! i ! j)"
proof -
  let ?bx = "nx st div fst (num_proc rt)" and ?by = "ny st div snd (num_proc rt)"
  let ?m = "masked_rhs vs rhs (boundary_val_of x0 bvo)"
  note f = init_facts [OF assms(1)]
  have bm: "has_shape (kx + 4) (ky + 4) (boundary_mask vs)"
    using assms(3) by (simp add: solve_inputs_ok_def)
  note ls = local_sizes [OF f(1) bm]
  have ij: "nat (gi mod ?bx) < nxl vs" "nat (gj mod ?by) < nyl vs"
    using assms(11,12,13,14) ls by simp_all
  have fl: "flagged vs (nat (gi mod ?bx) + 2) (nat (gj mod ?by) + 2)"
    using assms(11,12,15) by simp
  have row: "stencil_row (cf vs) ?bx ?by gi gj = Some (identity_row gi gj)"
    unfolding stencil_row_eq [OF f(1) assms(9,10) ij] identity_row_def
      flagged_cf [OF f(1) ij fl]
    by simp
  have mat: "filter (\<lambda>e. mrow e = (gi, gj)) (matrix slv) = identity_row gi gj"
    by (rule stencil_entries_filter
          [OF init_matrix [OF assms(1), unfolded assms(4)] assms(5,6,7,8) row])
  note m = masked_rhs_shape [OF assms(3)]
  have i2: "i + 2 < kx + 4" "j + 2 < ky + 4" using assms(13,14) by simp_all
  have p: "\<exists>l. petsc_solver engine slv (State st vs) rt lg ?m (enf x0 (enable_cyclic_x st))
               = Inr (sol, l)"
    unfolding petsc_solver_eq [OF assms(3)] assms(16) by simp
  have u: "update_interior ?m sol = Inr (set_interior ?m sol)"
    by (rule update_interior_ok [OF m assms(17)])
  have g: "set_interior ?m sol ! (i + 2) ! (j + 2) = sol ! i ! j"
    using set_interior_nth [OF m assms(17) i2] assms(13,14) by simp
  show ?thesis
    using row mat krylov_rhs_flagged [OF assms(1,3,13,14,15)] p u g by blast
qed

theorem flagged_cell_identity_row_witness:
  "PETScSolver_init accept_all wall_settings single_process (box_vars 6 6 [True])
     = Inr (box_solver [True]) \<and>
   flagged (box_vars 6 6 [True]) (1 + 2) (0 + 2) \<and>
   filter (\<lambda>e. mrow e = (1, 0)) (matrix (box_solver [True])) = identity_row 1 0 \<and>
   krylov_rhs wall_settings single_process (box_solver [True]) (box_vars 6 6 [True])
     (ramp 6 6) (const2 6 6 7) ! 1 ! 0 = 7"
proof -
  have i: "PETScSolver_init accept_all wall_settings single_process (box_vars 6 6 [True])
           = Inr (box_solver [True])"
    by code_simp
  have h: "metrics_nonzero (box_vars 6 6 [True])"
    "solve_inputs_ok enforce_boundaries (box_solver [True]) wall_settings single_process
       (box_vars 6 6 [True]) (ramp 6 6) (const2 6 6 7)
       (boundary_val_of (const2 6 6 7) (Some (const2 6 6 7))) 2 2"
    "getRanges (da (box_solver [True])) (proc_idx single_process) = ((0, 2), (0, 2))"
    "(0::int) \<le> 1" "(1::int) < 2" "(0::int) \<le> 0" "(0::int) < 2"
    "0 < nx wall_settings div fst (num_proc single_process)"
    "0 < ny wall_settings div snd (num_proc single_process)"
    "nat (1 mod (nx wall_settings div fst (num_proc single_process))) = 1"
    "nat (0 mod (ny wall_settings div snd (num_proc single_process))) = 0"
    "(1::nat) < 2" "(0::nat) < 2"
    "flagged (box_vars 6 6 [True]) (1 + 2) (0 + 2)"
    by code_simp+
  have e: "stalled_engine (ksp (box_solver [True]))
             (krylov_rhs wall_settings single_process (box_solver [True]) (box_vars 6 6 [True])
                (ramp 6 6) (boundary_val_of (const2 6 6 7) (Some (const2 6 6 7))))
             (krylov_x0 enforce_boundaries wall_settings (const2 6 6 7))
           = ([[7, 7], [7, 7]], - 3, 0)"
    by code_simp
  have s: "has_shape 2 2 [[7, 7], [7, 7 :: real]]"
    by code_simp
  have v: "boundary_val_of (const2 6 6 7) (Some (const2 6 6 7)) = const2 6 6 7"
    "const2 6 6 7 ! (1 + 2) ! (0 + 2) = 7"
    by code_simp+
  show ?thesis
    using flagged_cell_identity_row
        [where engine = stalled_engine and enf = enforce_boundaries
           and bvo = "Some (const2 6 6 7)" and lg = "[]" and gi = 1 and gj = 0,
         OF i h e s]
      i h(14)
    unfolding v by simp
qed

text \<open>
  With every cell flagged, boundary value 7 and initial guess 0, the row of cell \<open>(0, 0)\<close> is
  the identity row.  The call of \<open>solve\<close> ends in the AttributeError of line 53 and returns no
  value; and given the state, \<open>_petsc_solver\<close> with an iteration that stops before its first
  step returns 0 for the cell, which the gather writes where \<open>boundary_val\<close> holds 7.
\<close>

theorem flagged_cell_value_counterexample:
  "fully_flagged (box_vars 6 6 [True]) 2 2 \<and>
   filter (\<lambda>e. mrow e = (0, 0)) (matrix (box_solver [True])) = identity_row 0 0 \<and>
   const2 6 6 7 ! 2 ! 2 = 7 \<and>
   solve stalled_engine enforce_boundaries (box_solver [True]) wall_settings
       single_process (box_vars 6 6 [True]) [] (ramp 6 6) (const2 6 6 0)
       (Some (const2 6 6 7))
     = Inl AttributeError \<and>
   (case solve_setup enforce_boundaries wall_settings (box_vars 6 6 [True])
           (ramp 6 6) (const2 6 6 0) (Some (const2 6 6 7)) of
      Inl e \<Rightarrow> None
    | Inr (x, r0) \<Rightarrow>
        (case petsc_solver stalled_engine (box_solver [True])
                (State wall_settings (box_vars 6 6 [True])) single_process [] r0 x of
           Inl e \<Rightarrow> None
         | Inr (sol, l) \<Rightarrow>
             (case update_interior r0 sol of
                Inl e \<Rightarrow> None
              | Inr r \<Rightarrow> Some (r ! 2 ! 2))))
   = Some 0"
  by code_simp

section \<open>The partition of the grid\<close>

lemma sum_list_take_replicate:
  "sum_list (take k (replicate n (b::int))) = int (min k n) * b"
  by (simp add: sum_list_replicate min.commute)

lemma block_range_replicate:
  "k < n \<Longrightarrow> block_range (replicate n b) k = (int k * b, (int k + 1) * b)"
  by (simp add: block_range_def sum_list_replicate min_def algebra_simps)

lemma owned_replicate:
  "k < n \<Longrightarrow> owned (replicate n b) k = {int k * b ..< (int k + 1) * b}"
  by (simp add: owned_def block_range_replicate)

lemma blocks_union: "(\<Union>k<n. {int k * b ..< (int k + 1) * b}) = {0 ..< int n * b}"
proof (induction n)
  case 0
  then show ?case by simp
next
  case (Suc n)
  show ?case
  proof (cases "0 \<le> b")
    case True
    then have "0 \<le> int n * b" "int n * b \<le> (int n + 1) * b"
      by (simp_all add: algebra_simps)
    then have "{0 ..< int n * b} \<union> {int n * b ..< (int n + 1) * b} = {0 ..< (int n + 1) * b}"
      by auto
    then show ?thesis
      using Suc.IH by (simp add: lessThan_Suc Un_commute algebra_simps)
  next
    case False
    then have nb: "b < 0" by simp
    have le: "int n * b \<le> 0" "(int n + 1) * b \<le> 0"
      using nb by (simp_all add: mult_nonneg_nonpos)
    have "(int n + 1) * b \<le> int n * b" using nb by (simp add: algebra_simps)
    then have e: "{int n * b ..< (int n + 1) * b} = {}" by simp
    have "(\<Union>k<Suc n. {int k * b ..< (int k + 1) * b})
          = (\<Union>k<n. {int k * b ..< (int k + 1) * b}) \<union> {int n * b ..< (int n + 1) * b}"
      by (simp add: lessThan_Suc Un_commute)
    also have "\<dots> = {0 ..< int n * b}" unfolding e Suc.IH by simp
    also have "\<dots> = {}" using le(1) by simp
    also have "\<dots> = {0 ..< int (Suc n) * b}" using le(2) by (simp add: add.commute)
    finally show ?thesis .
  qed
qed

lemma owned_union: "(\<Union>k<n. owned (replicate n b) k) = {0 ..< int n * b}"
  using blocks_union [where n = n and b = b] by (simp add: owned_replicate)

lemma owned_disjoint:
  assumes "k < k'" "k' < n"
  shows "owned (replicate n b) k \<inter> owned (replicate n b) k' = {}"
proof (cases "0 \<le> b")
  case True
  have "int k + 1 \<le> int k'" using assms(1) by simp
  then have "(int k + 1) * b \<le> int k' * b" using True by (rule mult_right_mono)
  then show ?thesis
    using assms by (auto simp: owned_replicate)
next
  case False
  then have "(int k + 1) * b \<le> int k * b" by (simp add: algebra_simps)
  then show ?thesis
    using assms by (auto simp: owned_replicate)
qed

lemma covered_replicate:
  "covered (replicate n b, replicate m c) = {0 ..< int n * b} \<times> {0 ..< int m * c}"
proof -
  have "covered (replicate n b, replicate m c)
        = (\<Union>kx<n. owned (replicate n b) kx) \<times> (\<Union>ky<m. owned (replicate m c) ky)"
    by (auto simp: covered_def)
  then show ?thesis by (simp only: owned_union)
qed

text \<open>
  Claim C7, as the code has it.  With positive process counts the ranges are \<open>px\<close> blocks
  of size \<open>nx // px\<close> along x and \<open>py\<close> blocks of size \<open>ny // py\<close> along y; block \<open>k\<close> ends
  where block \<open>k + 1\<close> begins, two blocks never share an index, and together the blocks
  cover \<open>[0, px * (nx // px)) \<times> [0, py * (ny // py))\<close>.  That is the whole grid
  \<open>[0, nx) \<times> [0, ny)\<close> when \<open>px\<close> divides \<open>nx\<close> and \<open>py\<close> divides \<open>ny\<close>.
\<close>

theorem ownership_ranges_cover:
  assumes "0 < fst (num_proc rt)" and "0 < snd (num_proc rt)"
  shows "\<exists>lx ly. ownership_ranges st rt = Inr (lx, ly)
           \<and> length lx = nat (fst (num_proc rt)) \<and> length ly = nat (snd (num_proc rt))
           \<and> (\<forall>k<length lx. block_range lx k
                  = (int k * (nx st div fst (num_proc rt)),
                     (int k + 1) * (nx st div fst (num_proc rt))))
           \<and> (\<forall>k<length ly. block_range ly k
                  = (int k * (ny st div snd (num_proc rt)),
                     (int k + 1) * (ny st div snd (num_proc rt))))
           \<and> (\<forall>k k'. k < k' \<and> k' < length lx \<longrightarrow> owned lx k \<inter> owned lx k' = {})
           \<and> (\<forall>k k'. k < k' \<and> k' < length ly \<longrightarrow> owned ly k \<inter> owned ly k' = {})
           \<and> covered (lx, ly)
               = {0 ..< fst (num_proc rt) * (nx st div fst (num_proc rt))}
                 \<times> {0 ..< snd (num_proc rt) * (ny st div snd (num_proc rt))}
           \<and> (fst (num_proc rt) dvd nx st \<and> snd (num_proc rt) dvd ny st
                \<longrightarrow> covered (lx, ly) = {0 ..< nx st} \<times> {0 ..< ny st})"
proof -
  let ?px = "fst (num_proc rt)" and ?py = "snd (num_proc rt)"
  let ?lx = "replicate (nat ?px) (nx st div ?px)" and ?ly = "replicate (nat ?py) (ny st div ?py)"
  have o: "ownership_ranges st rt = Inr (?lx, ?ly)"
    using assms by (simp add: ownership_ranges_def Let_def)
  have c: "covered (?lx, ?ly) = {0 ..< ?px * (nx st div ?px)} \<times> {0 ..< ?py * (ny st div ?py)}"
    using assms by (simp add: covered_replicate)
  have d: "covered (?lx, ?ly) = {0 ..< nx st} \<times> {0 ..< ny st}" if "?px dvd nx st" "?py dvd ny st"
    unfolding c using that by simp
  show ?thesis
    using o c d by (simp add: block_range_replicate owned_disjoint)
qed

theorem ownership_ranges_cover_witness:
  "0 < fst (num_proc two_by_one) \<and> 0 < snd (num_proc two_by_one) \<and>
   fst (num_proc two_by_one) dvd nx wall_settings \<and>
   snd (num_proc two_by_one) dvd ny wall_settings \<and>
   (\<exists>lx ly. ownership_ranges wall_settings two_by_one = Inr (lx, ly)
      \<and> length lx = 2
      \<and> covered (lx, ly) = {0 ..< 2} \<times> {0 ..< 2})"
proof -
  have h: "0 < fst (num_proc two_by_one)" "0 < snd (num_proc two_by_one)"
    by code_simp+
  have v: "fst (num_proc two_by_one) = 2" "snd (num_proc two_by_one) = 1"
    "nx wall_settings = 2" "ny wall_settings = 2"
    by code_simp+
  have d: "fst (num_proc two_by_one) dvd nx wall_settings"
    "snd (num_proc two_by_one) dvd ny wall_settings"
    unfolding v by simp_all
  from ownership_ranges_cover [OF h, of wall_settings]
  obtain lx ly where l: "ownership_ranges wall_settings two_by_one = Inr (lx, ly)"
    "length lx = nat (fst (num_proc two_by_one))"
    "fst (num_proc two_by_one) dvd nx wall_settings \<and>
     snd (num_proc two_by_one) dvd ny wall_settings
       \<longrightarrow> covered (lx, ly) = {0 ..< nx wall_settings} \<times> {0 ..< ny wall_settings}"
    by (elim exE conjE)
  have "covered (lx, ly) = {0 ..< 2} \<times> {0 ..< 2}" using l(3) d unfolding v by simp
  moreover have "length lx = 2" using l(2) unfolding v by simp
  ultimately show ?thesis using l(1) h d by blast
qed

text \<open>
  Five columns on two processes give two blocks of two columns; column 4 belongs to no
  block.
\<close>

theorem uneven_grid_gap_counterexample:
  "ownership_ranges uneven_settings two_by_one = Inr ([2, 2], [2]) \<and>
   (4, 0) \<in> {0 ..< nx uneven_settings} \<times> {0 ..< ny uneven_settings} \<and>
   (4, 0) \<notin> covered ([2, 2], [2])"
proof -
  have a: "ownership_ranges uneven_settings two_by_one = Inr ([2, 2], [2])"
    by code_simp
  have b: "nx uneven_settings = 5" "ny uneven_settings = 2"
    by code_simp+
  have "covered (replicate 2 2, replicate 1 2) = {0 ..< int 2 * 2} \<times> {0 ..< int 1 * 2}"
    by (rule covered_replicate)
  moreover have "replicate 2 (2::int) = [2, 2]" "replicate 1 (2::int) = [2]"
    by (simp_all add: numeral_2_eq_2)
  ultimately have c: "covered ([2, 2], [2]) = {0 ..< 4} \<times> {0 ..< 2}" by simp
  show ?thesis unfolding c using a b by simp
qed

section \<open>Construction\<close>

lemma those_map_not_None:
  assumes "\<And>x. x \<in> set xs \<Longrightarrow> f x \<noteq> None"
  shows "those (map f xs) \<noteq> None"
  using assms
proof (induction xs)
  case Nil
  then show ?case by simp
next
  case (Cons a xs)
  then show ?case by (auto split: option.splits)
qed

lemma stencil_entries_defined:
  assumes ok: "vars_shape_ok vs" and b: "0 < bx" "0 < by"
    and l: "bx \<le> int (nxl vs)" "by \<le> int (nyl vs)"
  shows "stencil_entries (cf vs) bx by rg \<noteq> None"
proof -
  obtain i0 i1 j0 j1 where rg: "rg = ((i0, i1), (j0, j1))"
    by (metis surj_pair)
  have r: "stencil_row (cf vs) bx by i j \<noteq> None" for i j
  proof -
    have "i mod bx < bx" "0 \<le> i mod bx" "j mod by < by" "0 \<le> j mod by"
      using b by simp_all
    then have "nat (i mod bx) < nxl vs" "nat (j mod by) < nyl vs"
      using l by linarith+
    then show ?thesis
      using stencil_row_eq [OF ok b] by simp
  qed
  have "map_option concat (those (map (\<lambda>i. stencil_row (cf vs) bx by i j) [i0..i1 - 1])) \<noteq> None"
    for j
    using those_map_not_None [of "[i0..i1 - 1]" "\<lambda>i. stencil_row (cf vs) bx by i j"] r
    by simp
  then have "those (map (\<lambda>j. map_option concat
                 (those (map (\<lambda>i. stencil_row (cf vs) bx by i j) [i0..i1 - 1]))) [j0..j1 - 1])
             \<noteq> None"
    by (intro those_map_not_None)
  then show ?thesis
    unfolding rg stencil_entries_def by simp
qed

lemma init_zero_division:
  assumes "fst (num_proc rt) = 0 \<or> snd (num_proc rt) = 0"
  shows "PETScSolver_init acc st rt vs = Inl ZeroDivisionError"
  using assms by (auto simp: PETScSolver_init_def ownership_ranges_def Let_def)

lemma init_refused:
  assumes "fst (num_proc rt) \<noteq> 0" "snd (num_proc rt) \<noteq> 0" "\<not> acc (construction_request st rt)"
  shows "PETScSolver_init acc st rt vs = Inl PetscError"
  using assms
  by (simp add: PETScSolver_init_def ownership_ranges_def Let_def construction_request_def)

lemma init_succeeds:
  assumes p: "fst (num_proc rt) \<noteq> 0" "snd (num_proc rt) \<noteq> 0"
    and a: "acc (construction_request st rt)"
    and ok: "vars_shape_ok vs" and n: "0 < nxl vs" "0 < nyl vs"
    and l: "int (nxl vs) = nx st div fst (num_proc rt)" "int (nyl vs) = ny st div snd (num_proc rt)"
  shows "\<exists>slv. PETScSolver_init acc st rt vs = Inr slv \<and> da slv = construction_request st rt"
proof -
  let ?bx = "nx st div fst (num_proc rt)" and ?by = "ny st div snd (num_proc rt)"
  have b: "0 < ?bx" "0 < ?by" "?bx \<le> int (nxl vs)" "?by \<le> int (nyl vs)"
    using n l by simp_all
  obtain es where es: "stencil_entries (cf vs) ?bx ?by
      (getRanges (construction_request st rt) (proc_idx rt)) = Some es"
    using stencil_entries_defined [OF ok b] by blast
  have "assemble_poisson_matrix (construction_request st rt) st rt vs
        = Inr (es, \<lparr>east = last (cf vs ! 1), west = hd (cf vs ! 2),
                    north = map last (cf vs ! 3), south = map hd (cf vs ! 4)\<rparr>)"
    using ok n b(1,2) es by (simp add: assemble_poisson_matrix_def Let_def)
  then show ?thesis
    using p a
    by (simp add: PETScSolver_init_def ownership_ranges_def Let_def construction_request_def)
qed

text \<open>
  Claim C3, as the code has it.  The constructor compares the grid size with the process
  grid nowhere.  It fails with a division by zero when a process count is 0, and with the
  descriptor library's error when that library refuses the request of \<open>px\<close> blocks of size
  \<open>nx // px\<close> and \<open>py\<close> blocks of size \<open>ny // py\<close>; in both cases no solver is returned.
  When the request is accepted and the local fields have the shape of one block, it returns
  a solver with exactly these ranges, whether or not \<open>px\<close> divides \<open>nx\<close>.
\<close>

theorem construction_has_no_divisibility_check:
  "(fst (num_proc rt) = 0 \<or> snd (num_proc rt) = 0
      \<longrightarrow> PETScSolver_init acc st rt vs = Inl ZeroDivisionError)
   \<and> (fst (num_proc rt) \<noteq> 0 \<and> snd (num_proc rt) \<noteq> 0 \<and> \<not> acc (construction_request st rt)
      \<longrightarrow> PETScSolver_init acc st rt vs = Inl PetscError)
   \<and> (fst (num_proc rt) \<noteq> 0 \<and> snd (num_proc rt) \<noteq> 0 \<and> acc (construction_request st rt)
       \<and> vars_shape_ok vs \<and> 0 < nxl vs \<and> 0 < nyl vs
       \<and> int (nxl vs) = nx st div fst (num_proc rt)
       \<and> int (nyl vs) = ny st div snd (num_proc rt)
      \<longrightarrow> (\<exists>slv. PETScSolver_init acc st rt vs = Inr slv
                 \<and> da slv = construction_request st rt
                 \<and> da_ownership_ranges (da slv)
                   = (replicate (nat (fst (num_proc rt))) (nx st div fst (num_proc rt)),
                      replicate (nat (snd (num_proc rt))) (ny st div snd (num_proc rt)))))"
proof -
  have "da_ownership_ranges (construction_request st rt)
        = (replicate (nat (fst (num_proc rt))) (nx st div fst (num_proc rt)),
           replicate (nat (snd (num_proc rt))) (ny st div snd (num_proc rt)))"
    by (simp add: construction_request_def dmda_request_def)
  then show ?thesis
    using init_zero_division [of rt acc st vs] init_refused [of rt acc st vs]
      init_succeeds [of rt acc st vs]
    by metis
qed

theorem construction_has_no_divisibility_check_witness:
  "\<not> fst (num_proc two_by_one) dvd nx uneven_settings \<and>
   accept_all (construction_request uneven_settings two_by_one) \<and>
   vars_shape_ok (box_vars 6 6 [False]) \<and>
   (\<exists>slv. PETScSolver_init accept_all uneven_settings two_by_one (box_vars 6 6 [False]) = Inr slv
         \<and> da_ownership_ranges (da slv) = ([2, 2], [2]))"
proof -
  have h: "fst (num_proc two_by_one) \<noteq> 0" "snd (num_proc two_by_one) \<noteq> 0"
    "accept_all (construction_request uneven_settings two_by_one)"
    "vars_shape_ok (box_vars 6 6 [False])"
    "0 < nxl (box_vars 6 6 [False])" "0 < nyl (box_vars 6 6 [False])"
    "int (nxl (box_vars 6 6 [False])) = nx uneven_settings div fst (num_proc two_by_one)"
    "int (nyl (box_vars 6 6 [False])) = ny uneven_settings div snd (num_proc two_by_one)"
    by code_simp+
  have v: "(replicate (nat (fst (num_proc two_by_one)))
              (nx uneven_settings div fst (num_proc two_by_one)),
            replicate (nat (snd (num_proc two_by_one)))
              (ny uneven_settings div snd (num_proc two_by_one))) = ([2, 2], [2])"
    "\<not> fst (num_proc two_by_one) dvd nx uneven_settings"
    by code_simp+
  have "\<exists>slv. PETScSolver_init accept_all uneven_settings two_by_one (box_vars 6 6 [False])
               = Inr slv
             \<and> da slv = construction_request uneven_settings two_by_one
             \<and> da_ownership_ranges (da slv)
               = (replicate (nat (fst (num_proc two_by_one)))
                    (nx uneven_settings div fst (num_proc two_by_one)),
                  replicate (nat (snd (num_proc two_by_one)))
                    (ny uneven_settings div snd (num_proc two_by_one)))"
    using construction_has_no_divisibility_check
        [of two_by_one accept_all uneven_settings "box_vars 6 6 [False]"] h
    by blast
  then show ?thesis unfolding v(1) using v(2) h(3,4) by blast
qed

text \<open>
  With five columns on two processes and a library that accepts the request, construction
  returns a solver whose ranges are two blocks of two columns.
\<close>

theorem uneven_grid_constructs_counterexample:
  "nx uneven_settings mod fst (num_proc two_by_one) = 1 \<and>
   (case PETScSolver_init accept_all uneven_settings two_by_one (box_vars 6 6 [False]) of
      Inr slv \<Rightarrow> Some (da_ownership_ranges (da slv)) | Inl e \<Rightarrow> None) = Some ([2, 2], [2])"
  by code_simp

end
